theory Spec2Isabelle
  imports Main "HOL-Library.Multiset"
begin

section \<open>Strings, character classes and the regular expressions of the parser\<close>

text \<open>
  A Python \<^verbatim>\<open>str\<close> is modelled as a \<^typ>\<open>string\<close>, one \<^typ>\<open>char\<close> per code
  point; the model therefore covers texts whose code points lie in 0..255. On that range
  \<^verbatim>\<open>\s\<close> (and \<^verbatim>\<open>str.isspace\<close>, used by \<^verbatim>\<open>strip\<close>) holds of the code points
  9-13, 28-32, 133 and 160; \<^verbatim>\<open>\d\<close> of the ASCII digits; \<^verbatim>\<open>\w\<close> of the alphanumeric
  code points and the underscore; \<^verbatim>\<open>splitlines\<close> breaks at 10-13, 28-30 and 133.
\<close>

definition code :: "char \<Rightarrow> nat" where
  "code c = of_char c"

definition is_space :: "char \<Rightarrow> bool" where
  "is_space c = ((9 \<le> code c \<and> code c \<le> 13) \<or> (28 \<le> code c \<and> code c \<le> 32)
     \<or> code c = 133 \<or> code c = 160)"

definition is_linebreak :: "char \<Rightarrow> bool" where
  "is_linebreak c = ((10 \<le> code c \<and> code c \<le> 13) \<or> (28 \<le> code c \<and> code c \<le> 30)
     \<or> code c = 133)"

definition is_digit :: "char \<Rightarrow> bool" where
  "is_digit c = (48 \<le> code c \<and> code c \<le> 57)"

definition is_ascii_upper :: "char \<Rightarrow> bool" where
  "is_ascii_upper c = (65 \<le> code c \<and> code c \<le> 90)"

definition is_ascii_lower :: "char \<Rightarrow> bool" where
  "is_ascii_lower c = (97 \<le> code c \<and> code c \<le> 122)"

text \<open>The character class \<^verbatim>\<open>[a-zA-Z_]\<close> of \<^verbatim>\<open>ROLE_RE\<close>.\<close>

definition is_role_char :: "char \<Rightarrow> bool" where
  "is_role_char c = (is_ascii_upper c \<or> is_ascii_lower c \<or> c = CHR ''_'')"

text \<open>The character class \<^verbatim>\<open>[a-zA-Z0-9]\<close> of the trimmer's keyword pattern.\<close>

definition is_ascii_alnum :: "char \<Rightarrow> bool" where
  "is_ascii_alnum c = (is_ascii_upper c \<or> is_ascii_lower c \<or> is_digit c)"

text \<open>\<^verbatim>\<open>\w\<close> on the code points 0..255, which decides the word boundary \<^verbatim>\<open>\b\<close>.\<close>

definition is_word_char :: "char \<Rightarrow> bool" where
  "is_word_char c = (is_ascii_alnum c \<or> c = CHR ''_'' \<or> code c = 170
     \<or> code c = 178 \<or> code c = 179 \<or> code c = 181 \<or> code c = 185 \<or> code c = 186
     \<or> (188 \<le> code c \<and> code c \<le> 190) \<or> (192 \<le> code c \<and> code c \<le> 214)
     \<or> (216 \<le> code c \<and> code c \<le> 246) \<or> 248 \<le> code c)"

text \<open>\<^verbatim>\<open>str.splitlines()\<close>: a carriage return followed by a line feed is one break, and
  a break at the very end opens no further line.\<close>

fun splitlines_from :: "string \<Rightarrow> string \<Rightarrow> string list" where
  "splitlines_from cur [] = (if cur = [] then [] else [cur])"
| "splitlines_from cur [c] = (if is_linebreak c then [cur] else [cur @ [c]])"
| "splitlines_from cur (c # d # cs) =
     (if code c = 13 \<and> code d = 10 then cur # splitlines_from [] cs
      else if is_linebreak c then cur # splitlines_from [] (d # cs)
      else splitlines_from (cur @ [c]) (d # cs))"

definition splitlines :: "string \<Rightarrow> string list" where
  "splitlines s = splitlines_from [] s"

text \<open>\<^verbatim>\<open>str.strip()\<close>.\<close>

definition strip :: "string \<Rightarrow> string" where
  "strip s = rev (dropWhile is_space (rev (dropWhile is_space s)))"

text \<open>\<^verbatim>\<open>sub in s\<close> on strings.\<close>

fun contains :: "string \<Rightarrow> string \<Rightarrow> bool" where
  "contains sub [] = (sub = [])"
| "contains sub (c # cs) = (take (length sub) (c # cs) = sub \<or> contains sub cs)"

text \<open>
  \<^verbatim>\<open>LINE_RE = ^(?P<indent>\s*)-\s+(?P<body>.*)$\<close>, matched at the start of a line.
  The dash is no white space, so the first group is the whole leading run of white space;
  the greedy \<^verbatim>\<open>\s+\<close> takes the whole run after the dash, and the body is the rest (a
  line of \<^verbatim>\<open>splitlines\<close> holds no line feed, so \<^verbatim>\<open>.*\<close> reaches the end). The result is
  the pair of the groups \<^verbatim>\<open>indent\<close> and \<^verbatim>\<open>body\<close>.
\<close>

definition LINE_RE_match :: "string \<Rightarrow> (string \<times> string) option" where
  "LINE_RE_match line =
     (case dropWhile is_space line of
        [] \<Rightarrow> None
      | c # r \<Rightarrow>
          if c = CHR ''-'' \<and> takeWhile is_space r \<noteq> []
          then Some (takeWhile is_space line, dropWhile is_space r)
          else None)"

text \<open>\<^verbatim>\<open>URL_RE = ^/url:\s*(?P<url>\S+)\s*$\<close>; the result is the group \<^verbatim>\<open>url\<close>.\<close>

definition URL_RE_match :: "string \<Rightarrow> string option" where
  "URL_RE_match body =
     (if take 5 body = ''/url:''
      then (let t = dropWhile is_space (drop 5 body);
                u = takeWhile (\<lambda>c. \<not> is_space c) t;
                r = dropWhile (\<lambda>c. \<not> is_space c) t
            in if u \<noteq> [] \<and> dropWhile is_space r = [] then Some u else None)
      else None)"

text \<open>\<^verbatim>\<open>TEXT_KV_RE = ^text:\s*(?P<text>.*)$\<close>; the result is the group \<^verbatim>\<open>text\<close>.\<close>

definition TEXT_KV_RE_match :: "string \<Rightarrow> string option" where
  "TEXT_KV_RE_match body =
     (if take 5 body = ''text:'' then Some (dropWhile is_space (drop 5 body)) else None)"

text \<open>
  \<^verbatim>\<open>ROLE_RE = ^(?P<role>[a-zA-Z_]+)\b\<close>: the longest run of role characters, provided a
  word boundary follows it. Giving characters back cannot help, since a shorter run
  ends between two word characters.
\<close>

definition ROLE_RE_match :: "string \<Rightarrow> string option" where
  "ROLE_RE_match body =
     (let r = takeWhile is_role_char body in
      if r = [] then None
      else (case dropWhile is_role_char body of
              [] \<Rightarrow> Some r
            | c # _ \<Rightarrow> if is_word_char c then None else Some r))"

text \<open>\<^verbatim>\<open>NAME_RE = "(?P<name>.*?)"\<close>, searched: the text between the first two double
  quotes.\<close>

definition NAME_RE_search :: "string \<Rightarrow> string option" where
  "NAME_RE_search body =
     (case dropWhile (\<lambda>c. c \<noteq> CHR 0x22) body of
        [] \<Rightarrow> None
      | _ # r \<Rightarrow> if CHR 0x22 \<in> set r then Some (takeWhile (\<lambda>c. c \<noteq> CHR 0x22) r) else None)"

text \<open>\<^verbatim>\<open>REF_RE = \[ref=(?P<ref>e\d+)\]\<close>, searched: the leftmost position where it
  matches.\<close>

definition REF_RE_at :: "string \<Rightarrow> string option" where
  "REF_RE_at s =
     (if take 6 s = ''[ref=e''
      then (let ds = takeWhile is_digit (drop 6 s)
            in if ds \<noteq> [] \<and> take 1 (dropWhile is_digit (drop 6 s)) = '']''
               then Some (''e'' @ ds) else None)
      else None)"

fun REF_RE_search :: "string \<Rightarrow> string option" where
  "REF_RE_search [] = None"
| "REF_RE_search (c # cs) =
     (case REF_RE_at (c # cs) of Some r \<Rightarrow> Some r | None \<Rightarrow> REF_RE_search cs)"

text \<open>\<^verbatim>\<open>DISABLED_RE = \[disabled\]\<close>, searched.\<close>

definition DISABLED_RE_search :: "string \<Rightarrow> bool" where
  "DISABLED_RE_search body = contains ''[disabled]'' body"

section \<open>The node tree of snapshot_parser.py\<close>

text \<open>
  The parser builds its tree by mutation: it keeps references to the open nodes on a
  stack and appends each new node to the children of the node on top. The model keeps
  the nodes in a store, a list in which a node's address is its position, \<^verbatim>\<open>id(node)\<close>
  in the source. A new node takes the next free address; the synthetic root is the
  first node, at address 0. \<^verbatim>\<open>children\<close> holds addresses. The dictionary \<^verbatim>\<open>attrs\<close> only
  ever has the keys \<^verbatim>\<open>url\<close> and \<^verbatim>\<open>texts\<close>, which are two optional fields here.
\<close>

datatype error = IndexError | KeyError

record node =
  raw :: string
  indent :: int
  role :: string
  name :: "string option"
  ref :: "string option"
  disabled :: bool
  attrs_url :: "string option"
  attrs_texts :: "string list option"
  children :: "nat list"

type_synonym store = "node list"

record parser =
  nodes :: store
  stack :: "nat list"

definition root :: nat where
  "root = 0"

definition root_node :: node where
  "root_node = \<lparr>raw = ''ROOT'', indent = - 1, role = ''root'', name = None, ref = None,
     disabled = False, attrs_url = None, attrs_texts = None, children = []\<rparr>"

definition add_child :: "store \<Rightarrow> nat \<Rightarrow> nat \<Rightarrow> store" where
  "add_child st p c = st[p := (st ! p)\<lparr>children := children (st ! p) @ [c]\<rparr>]"

text \<open>\<^verbatim>\<open>while stack and indent <= stack[-1].indent: stack.pop()\<close>; the top of the stack is
  the last element of the list.\<close>

function pop_while :: "store \<Rightarrow> int \<Rightarrow> nat list \<Rightarrow> nat list" where
  "pop_while st ind stk =
     (if stk \<noteq> [] \<and> ind \<le> indent (st ! last stk) then pop_while st ind (butlast stk) else stk)"
  by pat_completeness auto
termination
  by (relation "measure (\<lambda>(st, ind, stk). length stk)") auto

declare pop_while.simps [simp del]

definition new_node :: "string \<Rightarrow> int \<Rightarrow> node" where
  "new_node body ind =
     \<lparr>raw = body, indent = ind,
      role = (case ROLE_RE_match body of Some r \<Rightarrow> r | None \<Rightarrow> ''unknown''),
      name = NAME_RE_search body,
      ref = REF_RE_search body,
      disabled = DISABLED_RE_search body,
      attrs_url = None, attrs_texts = None, children = []\<rparr>"

text \<open>One iteration of the loop over the lines. \<^verbatim>\<open>stack[-1]\<close> raises \<^verbatim>\<open>IndexError\<close> on
  an empty stack.\<close>

definition parse_line :: "parser \<Rightarrow> string \<Rightarrow> error + parser" where
  "parse_line ps line =
     (case LINE_RE_match line of
        None \<Rightarrow> Inr ps
      | Some (ws, b) \<Rightarrow>
          (let ind = int (length ws); body = strip b in
           case URL_RE_match body of
             Some u \<Rightarrow>
               if stack ps = [] then Inl IndexError
               else Inr (ps\<lparr>nodes := (nodes ps)[last (stack ps) :=
                      (nodes ps ! last (stack ps))\<lparr>attrs_url := Some u\<rparr>]\<rparr>)
           | None \<Rightarrow>
              (case TEXT_KV_RE_match body of
                 Some t \<Rightarrow>
                   if stack ps = [] then Inl IndexError
                   else Inr (ps\<lparr>nodes := (nodes ps)[last (stack ps) :=
                          (nodes ps ! last (stack ps))\<lparr>attrs_texts :=
                             Some ((case attrs_texts (nodes ps ! last (stack ps)) of
                                      None \<Rightarrow> [] | Some ts \<Rightarrow> ts) @ [t])\<rparr>]\<rparr>)
               | None \<Rightarrow>
                  (let stk = pop_while (nodes ps) ind (stack ps) in
                   if stk = [] then Inl IndexError
                   else Inr \<lparr>nodes = add_child (nodes ps) (last stk) (length (nodes ps))
                                       @ [new_node body ind],
                             stack = stk @ [length (nodes ps)]\<rparr>))))"

fun parse_lines :: "parser \<Rightarrow> string list \<Rightarrow> error + parser" where
  "parse_lines ps [] = Inr ps"
| "parse_lines ps (l # ls) =
     (case parse_line ps l of Inl e \<Rightarrow> Inl e | Inr ps' \<Rightarrow> parse_lines ps' ls)"

text \<open>\<^verbatim>\<open>parse_snapshot\<close> returns the root, which is address \<^const>\<open>root\<close> of the store
  returned here.\<close>

definition parse_snapshot :: "string \<Rightarrow> error + store" where
  "parse_snapshot snapshot_text =
     (case parse_lines \<lparr>nodes = [root_node], stack = [root]\<rparr> (splitlines snapshot_text) of
        Inl e \<Rightarrow> Inl e
      | Inr ps \<Rightarrow> Inr (nodes ps))"

subsection \<open>The invariant of the parser's loop\<close>

text \<open>
  What holds of the store and the stack between two lines: the root is at the bottom of
  the stack and is the only node with a negative indentation; the stack holds valid
  addresses in increasing order; every child lies deeper than its parent; the children
  of a node never get deeper from one to the next; and the stack is a path of the tree,
  each open node being the last child of the one below it, the top having no child yet.
\<close>

definition parser_inv :: "parser \<Rightarrow> bool" where
  "parser_inv ps \<longleftrightarrow>
     (let st = nodes ps; stk = stack ps in
      stk \<noteq> [] \<and> hd stk = 0 \<and> st \<noteq> [] \<and> indent (st ! 0) = - 1 \<and>
      (\<forall>i<length st. 0 < i \<longrightarrow> 0 \<le> indent (st ! i)) \<and>
      sorted_wrt (<) stk \<and> (\<forall>s\<in>set stk. s < length st) \<and>
      (\<forall>p<length st. \<forall>c\<in>set (children (st ! p)). c < length st \<and> indent (st ! p) < indent (st ! c)) \<and>
      (\<forall>p<length st. sorted_wrt (\<lambda>a b. indent (st ! b) \<le> indent (st ! a)) (children (st ! p))) \<and>
      children (st ! last stk) = [] \<and>
      (\<forall>k. Suc k < length stk \<longrightarrow>
         children (st ! (stk ! k)) \<noteq> [] \<and> last (children (st ! (stk ! k))) = stk ! Suc k))"

text \<open>The indentations of the children of the node at address \<open>p\<close>, in the order of the
  list \<^verbatim>\<open>children\<close>, in the tree parsed from a text.\<close>

definition sibling_indents :: "string \<Rightarrow> nat \<Rightarrow> error + int list" where
  "sibling_indents snapshot_text p =
     (case parse_snapshot snapshot_text of
        Inl e \<Rightarrow> Inl e
      | Inr st \<Rightarrow> Inr (map (\<lambda>c. indent (st ! c)) (children (st ! p))))"

section \<open>Walking the tree\<close>

text \<open>
  \<^verbatim>\<open>iter_nodes\<close> is a loop over an explicit stack of references. On a store whose
  \<^verbatim>\<open>children\<close> lists had a cycle it would not return, which is the value \<open>None\<close>
  here; that it returns on every parsed store is proved below.
\<close>

partial_function (option) iter_nodes_loop :: "store \<Rightarrow> nat list \<Rightarrow> nat list \<Rightarrow> nat list option" where
  "iter_nodes_loop st stk out =
     (if stk = [] then Some out
      else iter_nodes_loop st (butlast stk @ rev (children (st ! last stk))) (out @ [last stk]))"

declare iter_nodes_loop.simps [code]

definition iter_nodes :: "store \<Rightarrow> nat \<Rightarrow> nat list option" where
  "iter_nodes st rt = iter_nodes_loop st [rt] []"

text \<open>
  \<^verbatim>\<open>ancestors_with_context\<close>: the dictionary \<^verbatim>\<open>chains\<close> is a map from addresses to
  lists of addresses, written \<open>chns\<close>. (The dictionary \<^verbatim>\<open>parent\<close> of the source is
  written and never read; it is left out.) \<^verbatim>\<open>chains[id(n)]\<close> raises \<^verbatim>\<open>KeyError\<close> on a
  missing key. The inner \<^verbatim>\<open>for c in n.children\<close> is \<open>chains_for_children\<close>.
\<close>

fun chains_for_children ::
  "nat \<Rightarrow> nat list \<Rightarrow> (nat \<rightharpoonup> nat list) \<Rightarrow> nat list \<Rightarrow> error + (nat \<rightharpoonup> nat list) \<times> nat list" where
  "chains_for_children n [] chns stk = Inr (chns, stk)"
| "chains_for_children n (c # cs) chns stk =
     (case chns n of
        None \<Rightarrow> Inl KeyError
      | Some ch \<Rightarrow> chains_for_children n cs (chns(c \<mapsto> ch @ [n])) (stk @ [c]))"

partial_function (option) ancestors_loop ::
  "store \<Rightarrow> (nat \<rightharpoonup> nat list) \<Rightarrow> nat list \<Rightarrow> (error + (nat \<rightharpoonup> nat list)) option" where
  "ancestors_loop st chns stk =
     (if stk = [] then Some (Inr chns)
      else (case chains_for_children (last stk) (children (st ! last stk)) chns (butlast stk) of
              Inl e \<Rightarrow> Some (Inl e)
            | Inr (chns', stk') \<Rightarrow> ancestors_loop st chns' stk'))"

declare ancestors_loop.simps [code]

definition ancestors_with_context :: "store \<Rightarrow> nat \<Rightarrow> (error + (nat \<rightharpoonup> nat list)) option" where
  "ancestors_with_context st rt = ancestors_loop st [rt \<mapsto> []] [rt]"

subsection \<open>Slices, joins and number formatting\<close>

text \<open>\<^verbatim>\<open>xs[:k]\<close> and \<^verbatim>\<open>xs[k:]\<close> for a Python integer \<open>k\<close>; a negative \<open>k\<close> counts from
  the end.\<close>

definition slice_to :: "'a list \<Rightarrow> int \<Rightarrow> 'a list" where
  "slice_to xs k = (if k < 0 then take (nat (int (length xs) + k)) xs else take (nat k) xs)"

definition slice_from :: "'a list \<Rightarrow> int \<Rightarrow> 'a list" where
  "slice_from xs k = (if k < 0 then drop (nat (int (length xs) + k)) xs else drop (nat k) xs)"

text \<open>\<^verbatim>\<open>sep.join(xs)\<close>.\<close>

fun join :: "string \<Rightarrow> string list \<Rightarrow> string" where
  "join sep [] = []"
| "join sep [x] = x"
| "join sep (x # y # ys) = x @ sep @ join sep (y # ys)"

text \<open>\<^verbatim>\<open>str(n)\<close> for a natural number, as the f-strings format the counters.\<close>

definition digit_char :: "nat \<Rightarrow> char" where
  "digit_char d = char_of (48 + d)"

function str_nat :: "nat \<Rightarrow> string" where
  "str_nat n = (if n < 10 then [digit_char n] else str_nat (n div 10) @ [digit_char (n mod 10)])"
  by pat_completeness auto
termination
  by (relation "measure id") auto

declare str_nat.simps [simp del]

subsection \<open>Salient text\<close>

text \<open>
  The body of the \<^verbatim>\<open>for\<close> loop of \<^verbatim>\<open>first_salient_text\<close> on one node: \<open>Some\<close> is a
  \<^verbatim>\<open>return\<close>, \<open>None\<close> goes on to the next node. A name or a list counts as true when it
  is present and not empty.
\<close>

definition joined_texts :: "node \<Rightarrow> string" where
  "joined_texts n = strip (join '' '' (case attrs_texts n of None \<Rightarrow> [] | Some ts \<Rightarrow> ts))"

definition has_texts :: "node \<Rightarrow> bool" where
  "has_texts n = (case attrs_texts n of None \<Rightarrow> False | Some ts \<Rightarrow> ts \<noteq> [])"

definition has_name :: "node \<Rightarrow> bool" where
  "has_name n = (case name n of None \<Rightarrow> False | Some s \<Rightarrow> s \<noteq> [])"

definition salient_of_node :: "node \<Rightarrow> int \<Rightarrow> string option" where
  "salient_of_node n max_len =
     (if (role n = ''heading'' \<or> role n = ''link'') \<and> has_name n
      then Some (slice_to (the (name n)) max_len)
      else if has_texts n \<and> joined_texts n \<noteq> [] then Some (slice_to (joined_texts n) max_len)
      else if role n = ''emphasis'' \<and> has_texts n \<and> joined_texts n \<noteq> []
      then Some (slice_to (joined_texts n) max_len)
      else None)"

fun salient_scan :: "store \<Rightarrow> nat list \<Rightarrow> int \<Rightarrow> string option" where
  "salient_scan st [] max_len = None"
| "salient_scan st (n # ns) max_len =
     (case salient_of_node (st ! n) max_len of
        Some t \<Rightarrow> Some t
      | None \<Rightarrow> salient_scan st ns max_len)"

definition ref_or_no_ref :: "node \<Rightarrow> string" where
  "ref_or_no_ref n = (case ref n of None \<Rightarrow> ''no-ref'' | Some r \<Rightarrow> if r = [] then ''no-ref'' else r)"

text \<open>\<open>None\<close> is \<^verbatim>\<open>iter_nodes\<close> not returning; the function raises nothing.\<close>

definition first_salient_text :: "store \<Rightarrow> nat \<Rightarrow> int \<Rightarrow> string option" where
  "first_salient_text st container max_len =
     (case iter_nodes st container of
        None \<Rightarrow> None
      | Some ns \<Rightarrow>
          (case salient_scan st ns max_len of
             Some t \<Rightarrow> Some t
           | None \<Rightarrow> Some (role (st ! container) @ '':'' @ ref_or_no_ref (st ! container))))"

subsection \<open>The tree that a store holds\<close>

text \<open>
  To reason about the loops over the store, the part of it reachable from an address is
  described by a finite tree of addresses: \<open>repr st t\<close> says that the store holds the
  tree \<open>t\<close>, that is, at every node of \<open>t\<close> the list \<^verbatim>\<open>children\<close> in the store is the
  list of the roots of its subtrees. \<open>preorder\<close> lists the addresses of a tree, parents
  before children, children in order.
\<close>

datatype tree = T nat "tree list"

fun lbl :: "tree \<Rightarrow> nat" where
  "lbl (T i ts) = i"

fun preorder :: "tree \<Rightarrow> nat list" where
  "preorder (T i ts) = i # concat (map preorder ts)"

fun repr :: "store \<Rightarrow> tree \<Rightarrow> bool" where
  "repr st (T i ts) = (i < length st \<and> children (st ! i) = map lbl ts \<and> (\<forall>t\<in>set ts. repr st t))"

text \<open>The stack of the parser is a path of the tree under construction. A spine pairs
  each open node with the subtrees of its children that are closed already;
  \<open>build_spine\<close> is the tree it stands for (the spine is never empty).\<close>

fun build_spine :: "(nat \<times> tree list) list \<Rightarrow> tree" where
  "build_spine [] = T 0 []"
| "build_spine [(s, F)] = T s F"
| "build_spine ((s, F) # sp) = T s (F @ [build_spine sp])"

definition tree_inv :: "parser \<Rightarrow> bool" where
  "tree_inv ps \<longleftrightarrow>
     (\<exists>sp. sp \<noteq> [] \<and> map fst sp = stack ps \<and> repr (nodes ps) (build_spine sp) \<and>
           preorder (build_spine sp) = [0..<length (nodes ps)])"

text \<open>\<open>chains_ok chns t\<close>: in the tree \<open>t\<close>, the chain recorded for a child is the chain
  of its parent followed by the parent.\<close>

fun chains_ok :: "(nat \<rightharpoonup> nat list) \<Rightarrow> tree \<Rightarrow> bool" where
  "chains_ok chns (T i ts) =
     (\<forall>t\<in>set ts. chns (lbl t) = Some (the (chns i) @ [i]) \<and> chains_ok chns t)"

text \<open>\<open>ancestor_path st a xs n\<close>: \<open>xs\<close> is the list of the nodes on the way from \<open>a\<close> down
  to the parent of \<open>n\<close>, each a child of the one before, and \<open>n\<close> a child of the last
  (with \<open>xs\<close> empty when \<open>n\<close> is \<open>a\<close> itself): the ancestors of \<open>n\<close>, \<^verbatim>\<open>root..parent\<close>.\<close>

fun ancestor_path :: "store \<Rightarrow> nat \<Rightarrow> nat list \<Rightarrow> nat \<Rightarrow> bool" where
  "ancestor_path st a [] n = (n = a)"
| "ancestor_path st a (x # xs) n =
     (x = a \<and> (\<exists>c\<in>set (children (st ! a)). ancestor_path st c xs n))"

section \<open>The context model of transform_with_context.py\<close>

text \<open>
  The dictionaries the builder makes have fixed keys, and are records here. The fields of
  an action are prefixed with \<open>a_\<close>, since a node has fields of the same names;
  \<open>a_url\<close> is \<open>None\<close> when the key \<^verbatim>\<open>url\<close> is absent. A section is polymorphic in what
  its list \<^verbatim>\<open>items\<close> holds: items in a finished model, addresses of items while the
  model is built. In the returned dictionary the key \<^verbatim>\<open>page\<close> (always the empty
  dictionary) or the key \<^verbatim>\<open>task\<close> may be absent.
\<close>

record Action =
  action_id :: string
  a_role :: string
  a_name :: string
  a_ref :: string
  a_disabled :: bool
  a_url :: "string option"

record Item =
  item_id :: string
  item_key :: string
  container_role :: string
  actions :: "Action list"

record 'i Section =
  section_id :: string
  landmark :: string
  heading_path :: "string list"
  items :: "'i list"

record model =
  page :: "(string \<times> string) list option"
  task :: "string option"
  sections :: "Item Section list"

definition INTERACTIVE_ROLES :: "string set" where
  "INTERACTIVE_ROLES = {''button'', ''link'', ''combobox'', ''textbox'', ''searchbox'',
     ''checkbox'', ''radio'', ''option'', ''menuitem'', ''tab''}"

definition LANDMARK_ROLES :: "string set" where
  "LANDMARK_ROLES = {''main'', ''navigation'', ''contentinfo''}"

definition REPEATER_ITEM_ROLES :: "string set" where
  "REPEATER_ITEM_ROLES = {''row'', ''listitem'', ''group''}"

definition HEADING_ROLE :: string where
  "HEADING_ROLE = ''heading''"

definition has_ref :: "node \<Rightarrow> bool" where
  "has_ref n = (case ref n of None \<Rightarrow> False | Some r \<Rightarrow> r \<noteq> [])"

definition heading_path_for :: "store \<Rightarrow> nat list \<Rightarrow> string list" where
  "heading_path_for st ancs =
     slice_from (map (\<lambda>a. the (name (st ! a)))
                   (filter (\<lambda>a. role (st ! a) = HEADING_ROLE \<and> has_name (st ! a)) ancs)) (- 3)"

definition nearest_landmark :: "store \<Rightarrow> nat list \<Rightarrow> nat option" where
  "nearest_landmark st ancs = find (\<lambda>a. role (st ! a) \<in> LANDMARK_ROLES) (rev ancs)"

definition nearest_item_container :: "store \<Rightarrow> nat list \<Rightarrow> nat option" where
  "nearest_item_container st ancs = find (\<lambda>a. role (st ! a) \<in> REPEATER_ITEM_ROLES) (rev ancs)"

text \<open>
  The state of the loop of \<^verbatim>\<open>build_context_model\<close>. An item is one dictionary object,
  referred to both from \<^verbatim>\<open>item_map\<close> and from the list \<^verbatim>\<open>items\<close> of its section, and
  its list of actions is appended to through \<^verbatim>\<open>item_map\<close>. The model keeps the items in
  a heap of their own, \<open>item_heap\<close>, where an item's address is its position; both
  dictionaries hold addresses. The dictionaries are association lists in insertion
  order, a key being inserted only when absent.
\<close>

record builder =
  sections_dict :: "(string \<times> nat Section) list"
  item_map :: "((string \<times> nat) \<times> nat) list"
  item_heap :: "Item list"

text \<open>The parts of one iteration: the section landmark, the section id, the item
  container, and the action made for a node.\<close>

definition section_landmark_of :: "store \<Rightarrow> nat list \<Rightarrow> string" where
  "section_landmark_of st ancs =
     (case nearest_landmark st ancs of Some lm \<Rightarrow> role (st ! lm) | None \<Rightarrow> ''unknown'')"

definition section_id_of :: "store \<Rightarrow> nat list \<Rightarrow> string" where
  "section_id_of st ancs =
     ''s_'' @ section_landmark_of st ancs @ ''_'' @
     (if heading_path_for st ancs \<noteq> [] then join ''_'' (heading_path_for st ancs)
      else ''noheading'')"

definition item_container_of :: "store \<Rightarrow> nat list \<Rightarrow> nat" where
  "item_container_of st ancs =
     (case nearest_item_container st ancs of
        Some c \<Rightarrow> c
      | None \<Rightarrow>
          (case nearest_landmark st ancs of
             Some lm \<Rightarrow> lm
           | None \<Rightarrow> if ancs \<noteq> [] then last ancs else root))"

definition action_of :: "node \<Rightarrow> string \<Rightarrow> Action" where
  "action_of n aid =
     \<lparr>action_id = aid, a_role = role n,
      a_name = (case name n of None \<Rightarrow> [] | Some s \<Rightarrow> s),
      a_ref = the (ref n), a_disabled = disabled n, a_url = attrs_url n\<rparr>"

text \<open>\<^verbatim>\<open>sections[section_id]["items"].append(item)\<close>, the item given by its address.\<close>

definition append_item :: "(string \<times> nat Section) list \<Rightarrow> string \<Rightarrow> nat \<Rightarrow> (string \<times> nat Section) list" where
  "append_item secs sid a =
     map (\<lambda>(k, s). if k = sid then (k, s\<lparr>items := items s @ [a]\<rparr>) else (k, s)) secs"

text \<open>
  The body of the loop for one node. \<open>Some (Inr b)\<close> is the state after the iteration
  (also after a \<^verbatim>\<open>continue\<close>), \<open>Some (Inl e)\<close> an exception, and \<open>None\<close> is
  \<^verbatim>\<open>first_salient_text\<close> not returning.
\<close>

definition build_node :: "store \<Rightarrow> (nat \<rightharpoonup> nat list) \<Rightarrow> builder \<Rightarrow> nat \<Rightarrow> (error + builder) option" where
  "build_node st chns b n =
     (if role (st ! n) \<notin> INTERACTIVE_ROLES then Some (Inr b)
      else if \<not> has_ref (st ! n) then Some (Inr b)
      else
        (case chns n of
           None \<Rightarrow> Some (Inl KeyError)
         | Some ancs \<Rightarrow>
            (let section_id = section_id_of st ancs;
                 secs = (if map_of (sections_dict b) section_id = None
                         then sections_dict b @
                              [(section_id,
                                \<lparr>section_id = section_id, landmark = section_landmark_of st ancs,
                                 heading_path = heading_path_for st ancs, items = []\<rparr>)]
                         else sections_dict b);
                 item_container = item_container_of st ancs
             in case first_salient_text st item_container 80 of
                  None \<Rightarrow> None
                | Some key \<Rightarrow>
                   (let item_key_id = (section_id, item_container);
                        b1 = (if map_of (item_map b) item_key_id = None
                              then \<lparr>sections_dict = append_item secs section_id (length (item_heap b)),
                                    item_map = item_map b @ [(item_key_id, length (item_heap b))],
                                    item_heap = item_heap b @
                                      [\<lparr>item_id = section_id @ ''/i'' @ str_nat (length (item_map b)),
                                        item_key = key,
                                        container_role = role (st ! item_container),
                                        actions = []\<rparr>]\<rparr>
                              else b\<lparr>sections_dict := secs\<rparr>)
                    in case map_of (item_map b1) item_key_id of
                         None \<Rightarrow> Some (Inl KeyError)
                       | Some a \<Rightarrow>
                           Some (Inr (b1\<lparr>item_heap := (item_heap b1)[a :=
                             (item_heap b1 ! a)\<lparr>actions := actions (item_heap b1 ! a) @
                               [action_of (st ! n)
                                  (item_id (item_heap b1 ! a) @ ''/a'' @
                                   str_nat (length (actions (item_heap b1 ! a))))]\<rparr>]\<rparr>))))))"

fun build_loop :: "store \<Rightarrow> (nat \<rightharpoonup> nat list) \<Rightarrow> builder \<Rightarrow> nat list \<Rightarrow> (error + builder) option" where
  "build_loop st chns b [] = Some (Inr b)"
| "build_loop st chns b (n # ns) =
     (case build_node st chns b n of
        None \<Rightarrow> None
      | Some (Inl e) \<Rightarrow> Some (Inl e)
      | Some (Inr b') \<Rightarrow> build_loop st chns b' ns)"

text \<open>The store, the chains and the final state of the loop.\<close>

definition build_state :: "string \<Rightarrow> (error + store \<times> (nat \<rightharpoonup> nat list) \<times> builder) option" where
  "build_state snapshot_text =
     (case parse_snapshot snapshot_text of
        Inl e \<Rightarrow> Some (Inl e)
      | Inr st \<Rightarrow>
         (case ancestors_with_context st root of
            None \<Rightarrow> None
          | Some (Inl e) \<Rightarrow> Some (Inl e)
          | Some (Inr chns) \<Rightarrow>
             (case iter_nodes st root of
                None \<Rightarrow> None
              | Some ns \<Rightarrow>
                 (case build_loop st chns \<lparr>sections_dict = [], item_map = [], item_heap = []\<rparr> ns of
                    None \<Rightarrow> None
                  | Some (Inl e) \<Rightarrow> Some (Inl e)
                  | Some (Inr b) \<Rightarrow> Some (Inr (st, chns, b))))))"

text \<open>\<^verbatim>\<open>list(sections.values())\<close>, every address replaced by the item it refers to.\<close>

definition resolve_section :: "Item list \<Rightarrow> nat Section \<Rightarrow> Item Section" where
  "resolve_section heap s =
     \<lparr>section_id = section_id s, landmark = landmark s, heading_path = heading_path s,
      items = map (\<lambda>a. heap ! a) (items s)\<rparr>"

definition build_context_model :: "string \<Rightarrow> (error + model) option" where
  "build_context_model snapshot_text =
     (case build_state snapshot_text of
        None \<Rightarrow> None
      | Some (Inl e) \<Rightarrow> Some (Inl e)
      | Some (Inr (st, chns, b)) \<Rightarrow>
          Some (Inr \<lparr>page = Some [], task = None,
                     sections = map (\<lambda>(k, s). resolve_section (item_heap b) s) (sections_dict b)\<rparr>))"

subsection \<open>What the builder is to achieve\<close>

text \<open>A node yields an action when its role is interactive and it has a reference.\<close>

definition qualifies :: "store \<Rightarrow> nat \<Rightarrow> bool" where
  "qualifies st n = (role (st ! n) \<in> INTERACTIVE_ROLES \<and> has_ref (st ! n))"

text \<open>What an action records of its node (everything but the action id), read off a node
  and off an action.\<close>

definition node_core :: "node \<Rightarrow> string \<times> string \<times> string \<times> bool \<times> string option" where
  "node_core n =
     (role n, (case name n of None \<Rightarrow> [] | Some s \<Rightarrow> s), the (ref n), disabled n, attrs_url n)"

definition act_core :: "Action \<Rightarrow> string \<times> string \<times> string \<times> bool \<times> string option" where
  "act_core a = (a_role a, a_name a, a_ref a, a_disabled a, a_url a)"

text \<open>The key under which the loop files the node \<open>n\<close>: its section id and its item
  container.\<close>

definition key_of :: "store \<Rightarrow> (nat \<rightharpoonup> nat list) \<Rightarrow> nat \<Rightarrow> string \<times> nat" where
  "key_of st chns n = (section_id_of st (the (chns n)), item_container_of st (the (chns n)))"

text \<open>
  The priority chain in the words of the specification, for a chain that is not empty:
  the nearest ancestor with a role in a set is the last such node of the chain
  \<^verbatim>\<open>root..parent\<close>; the container is the nearest repeating container, else the nearest
  landmark, else the last node of the chain, which is the parent.
\<close>

definition nearest_with :: "store \<Rightarrow> string set \<Rightarrow> nat list \<Rightarrow> nat option" where
  "nearest_with st R ancs =
     (case filter (\<lambda>a. role (st ! a) \<in> R) ancs of [] \<Rightarrow> None | x # xs \<Rightarrow> Some (last (x # xs)))"

definition priority_container :: "store \<Rightarrow> nat list \<Rightarrow> nat" where
  "priority_container st ancs =
     (case nearest_with st REPEATER_ITEM_ROLES ancs of
        Some c \<Rightarrow> c
      | None \<Rightarrow> (case nearest_with st LANDMARK_ROLES ancs of Some lm \<Rightarrow> lm | None \<Rightarrow> last ancs))"

text \<open>
  The invariant of the loop of \<^verbatim>\<open>build_context_model\<close>, after the nodes \<open>ns\<close>: the
  items are numbered in the order of their keys in \<^verbatim>\<open>item_map\<close>, whose keys are
  distinct; the sections have distinct keys, which are their ids; every item is listed
  once, in the section of its key's section id; the actions of an item are those of the
  processed nodes that qualify and have the item's key, in order; every such node has its
  key in \<^verbatim>\<open>item_map\<close>.
\<close>

definition builder_inv :: "store \<Rightarrow> (nat \<rightharpoonup> nat list) \<Rightarrow> nat list \<Rightarrow> builder \<Rightarrow> bool" where
  "builder_inv st chns ns b \<longleftrightarrow>
     map snd (item_map b) = [0..<length (item_heap b)] \<and>
     distinct (map fst (item_map b)) \<and>
     distinct (map fst (sections_dict b)) \<and>
     (\<forall>ks\<in>set (sections_dict b). section_id (snd ks) = fst ks) \<and>
     mset (concat (map (\<lambda>ks. items (snd ks)) (sections_dict b))) = mset [0..<length (item_heap b)] \<and>
     (\<forall>a<length (item_heap b).
        (\<exists>s. map_of (sections_dict b) (fst (fst (item_map b ! a))) = Some s \<and> a \<in> set (items s)) \<and>
        container_role (item_heap b ! a) = role (st ! snd (fst (item_map b ! a))) \<and>
        map act_core (actions (item_heap b ! a)) =
          map (\<lambda>n. node_core (st ! n))
            (filter (\<lambda>n. qualifies st n \<and> key_of st chns n = fst (item_map b ! a)) ns)) \<and>
     (\<forall>n\<in>set ns. qualifies st n \<longrightarrow> key_of st chns n \<in> fst ` set (item_map b)) \<and>
     mset (map act_core (concat (map actions (item_heap b)))) =
       mset (map (\<lambda>n. node_core (st ! n)) (filter (qualifies st) ns))"

text \<open>The dictionary \<^verbatim>\<open>sections\<close> after the test \<^verbatim>\<open>if section_id not in sections\<close>, as
  \<^const>\<open>build_node\<close> computes it.\<close>

definition secs_with :: "store \<Rightarrow> nat list \<Rightarrow> builder \<Rightarrow> (string \<times> nat Section) list" where
  "secs_with st ancs b =
     (if map_of (sections_dict b) (section_id_of st ancs) = None
      then sections_dict b @
             [(section_id_of st ancs,
               \<lparr>section_id = section_id_of st ancs, landmark = section_landmark_of st ancs,
                heading_path = heading_path_for st ancs, items = []\<rparr>)]
      else sections_dict b)"

text \<open>The dictionary \<^verbatim>\<open>item_map\<close> at the end of the loop, for a text.\<close>

definition snapshot_item_map :: "string \<Rightarrow> (error + ((string \<times> nat) \<times> nat) list) option" where
  "snapshot_item_map snapshot_text =
     (case build_state snapshot_text of
        None \<Rightarrow> None
      | Some (Inl e) \<Rightarrow> Some (Inl e)
      | Some (Inr (st, chns, b)) \<Rightarrow> Some (Inr (item_map b)))"

section \<open>nodebased_chunking.py\<close>

definition CHUNK_ROOT_ROLES :: "string set" where
  "CHUNK_ROOT_ROLES = {''main'', ''navigation'', ''contentinfo'', ''rowgroup'', ''list''}"

definition estimate_tokens :: "string \<Rightarrow> int" where
  "estimate_tokens txt = max 1 (int (length txt) div 4)"

text \<open>The line that \<^verbatim>\<open>serialize_subtree\<close> appends for one node at a depth.\<close>

definition serialize_line :: "node \<Rightarrow> nat \<Rightarrow> string" where
  "serialize_line n depth =
     concat (replicate depth ''  '') @ ''- '' @ role n
     @ (if has_name n then '' '' @ [CHR 0x22] @ the (name n) @ [CHR 0x22] else [])
     @ (case ref n of None \<Rightarrow> [] | Some r \<Rightarrow> if r = [] then [] else '' [ref='' @ r @ '']'')
     @ (if disabled n then '' [disabled]'' else [])
     @ (case attrs_url n of None \<Rightarrow> [] | Some u \<Rightarrow> '' /url='' @ u)"

text \<open>The loop of \<^verbatim>\<open>serialize_subtree\<close>: every iteration appends a line, so the bound
  \<^verbatim>\<open>max_lines\<close> ends it on any store.\<close>

function serialize_loop :: "store \<Rightarrow> int \<Rightarrow> (nat \<times> nat) list \<Rightarrow> string list \<Rightarrow> string list" where
  "serialize_loop st max_lines stk out =
     (if stk \<noteq> [] \<and> int (length out) < max_lines
      then serialize_loop st max_lines
             (butlast stk @ map (\<lambda>c. (c, snd (last stk) + 1)) (rev (children (st ! fst (last stk)))))
             (out @ [serialize_line (st ! fst (last stk)) (snd (last stk))])
      else out)"
  by pat_completeness auto
termination
  by (relation "measure (\<lambda>(st, max_lines, stk, out). nat (max_lines - int (length out)))") auto

declare serialize_loop.simps [simp del]

definition serialize_subtree :: "store \<Rightarrow> nat \<Rightarrow> int \<Rightarrow> string" where
  "serialize_subtree st n max_lines = join [CHR 0x0A] (serialize_loop st max_lines [(n, 0)] [])"

definition rank :: "store \<Rightarrow> nat \<Rightarrow> nat" where
  "rank st n = (if role (st ! n) \<in> {''main'', ''navigation'', ''contentinfo''} then 0 else 1)"

text \<open>\<^verbatim>\<open>sorted(roots, key=rank)\<close> is a stable sort, as \<^const>\<open>sort_key\<close> is. \<open>None\<close> is
  \<^verbatim>\<open>iter_nodes\<close> not returning.\<close>

definition find_chunk_roots :: "store \<Rightarrow> nat \<Rightarrow> nat list option" where
  "find_chunk_roots st rt =
     (case iter_nodes st rt of
        None \<Rightarrow> None
      | Some ns \<Rightarrow>
          Some (sort_key (rank st) (filter (\<lambda>n. role (st ! n) \<in> CHUNK_ROOT_ROLES \<and> n \<noteq> rt) ns)))"

record chunk =
  chunk_id :: string
  root_role :: string
  chunk_text :: string

text \<open>The chunk appended for the child \<open>child\<close>, number \<open>j\<close>, of the chunk root \<open>cr\<close>,
  number \<open>idx\<close>, when the root is over the budget.\<close>

definition child_chunk :: "store \<Rightarrow> int \<Rightarrow> nat \<Rightarrow> nat \<Rightarrow> nat \<Rightarrow> nat \<Rightarrow> chunk" where
  "child_chunk st max_tokens_per_chunk idx cr j child =
     (let child_text = serialize_subtree st child 5000 in
      if estimate_tokens child_text \<le> max_tokens_per_chunk
      then \<lparr>chunk_id = ''ch'' @ str_nat idx @ ''_'' @ str_nat j,
            root_role = role (st ! cr) @ '':'' @ role (st ! child),
            chunk_text = child_text\<rparr>
      else \<lparr>chunk_id = ''ch'' @ str_nat idx @ ''_'' @ str_nat j @ ''_slice'',
            root_role = role (st ! cr) @ '':'' @ role (st ! child),
            chunk_text = slice_to child_text (max_tokens_per_chunk * 4)\<rparr>)"

text \<open>The chunks appended in one iteration of the loop over the chunk roots.\<close>

definition root_chunks :: "store \<Rightarrow> int \<Rightarrow> nat \<Rightarrow> nat \<Rightarrow> chunk list" where
  "root_chunks st max_tokens_per_chunk idx cr =
     (let txt = serialize_subtree st cr 5000 in
      if estimate_tokens txt \<le> max_tokens_per_chunk
      then [\<lparr>chunk_id = ''ch'' @ str_nat idx, root_role = role (st ! cr), chunk_text = txt\<rparr>]
      else map (\<lambda>(j, child). child_chunk st max_tokens_per_chunk idx cr j child)
             (enumerate 0 (children (st ! cr))))"

definition make_chunks :: "string \<Rightarrow> int \<Rightarrow> (error + chunk list) option" where
  "make_chunks snapshot_text max_tokens_per_chunk =
     (case parse_snapshot snapshot_text of
        Inl e \<Rightarrow> Some (Inl e)
      | Inr st \<Rightarrow>
          (case find_chunk_roots st root of
             None \<Rightarrow> None
           | Some chunk_roots \<Rightarrow>
               Some (Inr (concat (map (\<lambda>(idx, cr). root_chunks st max_tokens_per_chunk idx cr)
                                   (enumerate 0 chunk_roots))))))"

text \<open>The chunk roots of the tree parsed from a text.\<close>

definition snapshot_chunk_roots :: "string \<Rightarrow> (error + nat list) option" where
  "snapshot_chunk_roots snapshot_text =
     (case parse_snapshot snapshot_text of
        Inl e \<Rightarrow> Some (Inl e)
      | Inr st \<Rightarrow> map_option Inr (find_chunk_roots st root))"

text \<open>The text of the chunk for a child of an over-budget chunk root, in the words of the
  specification: the serialized child if it fits the budget, else its first
  \<^verbatim>\<open>max_tokens_per_chunk * 4\<close> characters.\<close>

definition fitted :: "store \<Rightarrow> int \<Rightarrow> nat \<Rightarrow> string" where
  "fitted st m n =
     (if estimate_tokens (serialize_subtree st n 5000) \<le> m then serialize_subtree st n 5000
      else take (nat (m * 4)) (serialize_subtree st n 5000))"

text \<open>The salient text of the node at an address of the tree parsed from a text, with
  the default \<^verbatim>\<open>max_len\<close> of 80.\<close>

definition snapshot_salient_text :: "string \<Rightarrow> nat \<Rightarrow> (error + string) option" where
  "snapshot_salient_text snapshot_text container =
     (case parse_snapshot snapshot_text of
        Inl e \<Rightarrow> Some (Inl e)
      | Inr st \<Rightarrow> map_option Inr (first_salient_text st container 80))"

section \<open>The relevance trimmer\<close>

text \<open>\<^verbatim>\<open>re.findall(r"[a-zA-Z0-9]+", task)\<close>: the maximal runs of ASCII letters and digits,
  from left to right.\<close>

fun findall_alnum_from :: "string \<Rightarrow> string \<Rightarrow> string list" where
  "findall_alnum_from cur [] = (if cur = [] then [] else [cur])"
| "findall_alnum_from cur (c # cs) =
     (if is_ascii_alnum c then findall_alnum_from (cur @ [c]) cs
      else (if cur = [] then [] else [cur]) @ findall_alnum_from [] cs)"

definition findall_alnum :: "string \<Rightarrow> string list" where
  "findall_alnum s = findall_alnum_from [] s"

text \<open>\<^verbatim>\<open>str.lower()\<close> on the code points 0..255: the ASCII capitals and the capitals
  192-222 (but the multiplication sign 215) move up by 32.\<close>

definition lower_char :: "char \<Rightarrow> char" where
  "lower_char c =
     (if is_ascii_upper c \<or> (192 \<le> code c \<and> code c \<le> 222 \<and> code c \<noteq> 215)
      then char_of (code c + 32) else c)"

definition lower :: "string \<Rightarrow> string" where
  "lower s = map lower_char s"

text \<open>The set \<^verbatim>\<open>kw\<close> and the local function \<^verbatim>\<open>score_text\<close>, which counts the keywords
  that occur in the lowered text.\<close>

definition task_keywords :: "string \<Rightarrow> string set" where
  "task_keywords tsk = set (map lower (filter (\<lambda>w. 2 < length w) (findall_alnum tsk)))"

definition score_text :: "string set \<Rightarrow> string \<Rightarrow> int" where
  "score_text kw s = int (card (Set.filter (\<lambda>k. contains k (lower s)) kw))"

text \<open>The three sort keys of \<^verbatim>\<open>trim_for_llm\<close>.\<close>

definition section_score :: "string set \<Rightarrow> 'i Section \<Rightarrow> int" where
  "section_score kw sec = score_text kw (join '' '' (heading_path sec))"

definition item_score :: "string set \<Rightarrow> Item \<Rightarrow> int" where
  "item_score kw it = score_text kw (item_key it)"

definition action_score :: "string set \<Rightarrow> Action \<Rightarrow> int" where
  "action_score kw a =
     score_text kw (a_name a @ '' '' @ (case a_url a of None \<Rightarrow> [] | Some u \<Rightarrow> u))"

text \<open>\<^verbatim>\<open>sorted(xs, key=key, reverse=True)\<close>. Python's sort is stable also when reversed:
  elements with equal keys keep their order. That is the stable sort
  \<^const>\<open>sort_key\<close> on the negated key.\<close>

definition sorted_reverse :: "('a \<Rightarrow> int) \<Rightarrow> 'a list \<Rightarrow> 'a list" where
  "sorted_reverse key xs = sort_key (\<lambda>x. - key x) xs"

definition trim_item :: "string set \<Rightarrow> int \<Rightarrow> Item \<Rightarrow> Item" where
  "trim_item kw max_actions it =
     it\<lparr>actions := slice_to (sorted_reverse (action_score kw) (actions it)) max_actions\<rparr>"

definition trim_section :: "string set \<Rightarrow> int \<Rightarrow> int \<Rightarrow> Item Section \<Rightarrow> Item Section" where
  "trim_section kw max_items max_actions sec =
     sec\<lparr>items := map (trim_item kw max_actions)
                      (slice_to (sorted_reverse (item_score kw) (items sec)) max_items)\<rparr>"

definition trim_for_llm :: "model \<Rightarrow> string \<Rightarrow> int \<Rightarrow> int \<Rightarrow> int \<Rightarrow> model" where
  "trim_for_llm m tsk max_sections max_items max_actions =
     (let kw = task_keywords tsk;
          scored_sections =
            slice_to (sorted_reverse (section_score kw) (sections m)) max_sections
      in \<lparr>page = None, task = Some tsk,
          sections = map (trim_section kw max_items max_actions) scored_sections\<rparr>)"

text \<open>
  The trimmer's order in the words of the specification: \<open>ys\<close> is \<open>xs\<close> rearranged by
  descending key, entries with equal keys in their original order; and \<open>ys\<close> is the first
  \<open>k\<close> entries of that arrangement.
\<close>

definition sorted_desc_stable :: "('a \<Rightarrow> int) \<Rightarrow> 'a list \<Rightarrow> 'a list \<Rightarrow> bool" where
  "sorted_desc_stable key xs ys \<longleftrightarrow>
     mset ys = mset xs \<and> sorted_wrt (\<lambda>a b. key b \<le> key a) ys \<and>
     (\<forall>v. filter (\<lambda>x. key x = v) ys = filter (\<lambda>x. key x = v) xs)"

definition kept_of :: "('a \<Rightarrow> int) \<Rightarrow> int \<Rightarrow> 'a list \<Rightarrow> 'a list \<Rightarrow> bool" where
  "kept_of key k xs ys \<longleftrightarrow> (\<exists>zs. sorted_desc_stable key xs zs \<and> ys = take (nat k) zs)"

section \<open>Properties of the parser\<close>

lemma pop_while_take:
  "\<exists>n\<le>length stk. pop_while st ind stk = take n stk \<and>
     (\<forall>k. n \<le> k \<and> k < length stk \<longrightarrow> ind \<le> indent (st ! (stk ! k))) \<and>
     (0 < n \<longrightarrow> \<not> ind \<le> indent (st ! (stk ! (n - 1))))"
proof (induction st ind stk rule: pop_while.induct)
  case (1 st ind stk)
  show ?case
  proof (cases "stk \<noteq> [] \<and> ind \<le> indent (st ! last stk)")
    case True
    then obtain n where n: "n \<le> length (butlast stk)"
      "pop_while st ind (butlast stk) = take n (butlast stk)"
      "\<forall>k. n \<le> k \<and> k < length (butlast stk) \<longrightarrow> ind \<le> indent (st ! (butlast stk ! k))"
      "0 < n \<longrightarrow> \<not> ind \<le> indent (st ! (butlast stk ! (n - 1)))"
      using 1 by blast
    have len: "length (butlast stk) = length stk - 1" by simp
    have nlt: "n < length stk" using True n(1) by (cases stk rule: rev_cases) auto
    have a: "pop_while st ind stk = take n stk"
      using True n(2) nlt by (subst pop_while.simps) (simp add: take_butlast)
    have b: "ind \<le> indent (st ! (stk ! k))" if "n \<le> k" "k < length stk" for k
    proof (cases "k < length stk - 1")
      case True
      then show ?thesis using n(3) that by (simp add: nth_butlast)
    next
      case False
      then have "k = length stk - 1" using that by simp
      moreover have "stk \<noteq> []" "ind \<le> indent (st ! last stk)" using True by auto
      ultimately show ?thesis by (simp add: last_conv_nth)
    qed
    have c: "0 < n \<longrightarrow> \<not> ind \<le> indent (st ! (stk ! (n - 1)))"
      using n(1,4) by (auto simp: nth_butlast)
    show ?thesis
      using a b c n(1) by (intro exI[of _ n]) auto
  next
    case False
    then have "pop_while st ind stk = stk" by (subst pop_while.simps) auto
    moreover have "0 < length stk \<longrightarrow> \<not> ind \<le> indent (st ! (stk ! (length stk - 1)))"
      using False by (cases "stk = []") (auto simp: last_conv_nth)
    ultimately show ?thesis by (intro exI[of _ "length stk"]) auto
  qed
qed

lemma add_child_props:
  assumes "p < length st"
  shows "length (add_child st p c @ [nd]) = Suc (length st)"
    and "\<And>i. i < length st \<Longrightarrow> indent ((add_child st p c @ [nd]) ! i) = indent (st ! i)"
    and "\<And>i. i < length st \<Longrightarrow> children ((add_child st p c @ [nd]) ! i) =
           (if i = p then children (st ! p) @ [c] else children (st ! i))"
    and "(add_child st p c @ [nd]) ! length st = nd"
  using assms by (auto simp: add_child_def nth_append nth_list_update)

lemma sorted_wrt_lt_nth_neq:
  "sorted_wrt (<) (xs :: nat list) \<Longrightarrow> i < j \<Longrightarrow> j < length xs \<Longrightarrow> xs ! i \<noteq> xs ! j"
  using sorted_wrt_nth_less[of "(<)" xs i j] by auto

lemma parser_inv_push:
  assumes inv: "parser_inv \<lparr>nodes = st, stack = stk\<rparr>"
    and ind: "0 \<le> ind" and nd: "indent nd = ind" "children nd = []"
  shows "pop_while st ind stk \<noteq> [] \<and>
     parser_inv \<lparr>nodes = add_child st (last (pop_while st ind stk)) (length st) @ [nd],
                  stack = pop_while st ind stk @ [length st]\<rparr>"
proof -
  from inv have stk_ne: "stk \<noteq> []" and hd0: "hd stk = 0" and st_ne: "st \<noteq> []"
    and ind0: "indent (st ! 0) = - 1"
    and pos: "\<And>i. i < length st \<Longrightarrow> 0 < i \<Longrightarrow> 0 \<le> indent (st ! i)"
    and srt: "sorted_wrt (<) stk" and bnd: "\<And>s. s \<in> set stk \<Longrightarrow> s < length st"
    and ch: "\<And>p c. p < length st \<Longrightarrow> c \<in> set (children (st ! p)) \<Longrightarrow>
                c < length st \<and> indent (st ! p) < indent (st ! c)"
    and chs: "\<And>p. p < length st \<Longrightarrow>
                sorted_wrt (\<lambda>a b. indent (st ! b) \<le> indent (st ! a)) (children (st ! p))"
    and top: "children (st ! last stk) = []"
    and lnk: "\<And>k. Suc k < length stk \<Longrightarrow>
                children (st ! (stk ! k)) \<noteq> [] \<and> last (children (st ! (stk ! k))) = stk ! Suc k"
    unfolding parser_inv_def Let_def by simp_all
  obtain n where n: "n \<le> length stk" "pop_while st ind stk = take n stk"
    and popped: "\<And>k. n \<le> k \<Longrightarrow> k < length stk \<Longrightarrow> ind \<le> indent (st ! (stk ! k))"
    and kept: "0 < n \<Longrightarrow> \<not> ind \<le> indent (st ! (stk ! (n - 1)))"
    using pop_while_take[of stk st ind] by blast
  have stk0: "stk ! 0 = 0" using stk_ne hd0 by (simp add: hd_conv_nth)
  have n0: "0 < n"
  proof (rule ccontr)
    assume "\<not> 0 < n"
    then have "ind \<le> indent (st ! (stk ! 0))" using popped[of 0] stk_ne by simp
    then show False using stk0 ind0 ind by simp
  qed
  define stk' where "stk' = take n stk"
  define p where "p = stk ! (n - 1)"
  define N where "N = length st"
  define st' where "st' = add_child st p N @ [nd]"
  have stk'_ne: "stk' \<noteq> []" using n0 stk_ne by (simp add: stk'_def)
  have lastp: "last stk' = p"
    using n0 n(1) stk_ne by (simp add: stk'_def p_def last_conv_nth min_def)
  have pin: "p \<in> set stk" using n0 n(1) by (simp add: p_def)
  have pN: "p < N" using bnd[OF pin] by (simp add: N_def)
  have len': "length st' = Suc N"
    and ind': "\<And>i. i < N \<Longrightarrow> indent (st' ! i) = indent (st ! i)"
    and ch': "\<And>i. i < N \<Longrightarrow> children (st' ! i) =
           (if i = p then children (st ! p) @ [N] else children (st ! i))"
    and new: "st' ! N = nd"
    using add_child_props[where p=p and st=st and c=N and nd=nd] pN unfolding st'_def N_def by simp_all
  have lowp: "indent (st ! p) < ind" using kept n0 by (simp add: p_def)
  have above: "ind \<le> indent (st ! a)" if "a \<in> set (children (st ! p))" for a
  proof (cases "n = length stk")
    case True
    then have "p = last stk" using stk_ne by (simp add: p_def last_conv_nth)
    then show ?thesis using top that by simp
  next
    case False
    then have k: "Suc (n - 1) < length stk" using n(1) n0 by simp
    from lnk[OF k] have ne: "children (st ! p) \<noteq> []" and l: "last (children (st ! p)) = stk ! n"
      using n0 by (simp_all add: p_def)
    have le: "ind \<le> indent (st ! last (children (st ! p)))"
      using popped[of n] k n0 l by simp
    have "indent (st ! last (children (st ! p))) \<le> indent (st ! a)"
    proof (cases "a = last (children (st ! p))")
      case True then show ?thesis by simp
    next
      case False
      obtain xs x where xs: "children (st ! p) = xs @ [x]"
        using ne by (cases "children (st ! p)" rule: rev_cases) auto
      then have "a \<in> set xs" using that False by auto
      moreover have "sorted_wrt (\<lambda>a b. indent (st ! b) \<le> indent (st ! a)) (xs @ [x])"
        using chs[of p] pN xs by (simp add: N_def)
      ultimately show ?thesis using xs by (simp add: sorted_wrt_append)
    qed
    then show ?thesis using le by linarith
  qed
  have c5: "\<forall>i<length st'. 0 < i \<longrightarrow> 0 \<le> indent (st' ! i)"
  proof (intro allI impI)
    fix i assume "i < length st'" "0 < i"
    then show "0 \<le> indent (st' ! i)"
      using pos[of i] ind' [of i] new nd ind len' by (cases "i = N") (auto simp: N_def)
  qed
  have c6: "sorted_wrt (<) (stk' @ [N])"
    using srt bnd by (auto simp: sorted_wrt_append stk'_def N_def dest: in_set_takeD)
  have c7: "\<forall>s\<in>set (stk' @ [N]). s < length st'"
    using bnd len' by (auto simp: stk'_def N_def dest!: in_set_takeD less_SucI)
  have c8: "\<forall>q<length st'. \<forall>c\<in>set (children (st' ! q)).
              c < length st' \<and> indent (st' ! q) < indent (st' ! c)"
  proof (intro allI impI ballI)
    fix q c assume q: "q < length st'" and c: "c \<in> set (children (st' ! q))"
    show "c < length st' \<and> indent (st' ! q) < indent (st' ! c)"
    proof (cases "q = N")
      case True
      then show ?thesis using c new nd by simp
    next
      case False
      then have qN: "q < N" using q len' by simp
      show ?thesis
      proof (cases "c = N")
        case True
        then have "q = p" using c ch'[OF qN] ch[of q c] qN by (auto simp: N_def split: if_splits)
        then show ?thesis using True lowp ind'[OF pN] new nd len' by simp
      next
        case False
        then have "c \<in> set (children (st ! q))" using c ch'[OF qN] by (auto split: if_splits)
        then have "c < N \<and> indent (st ! q) < indent (st ! c)" using ch[of q c] qN by (simp add: N_def)
        then show ?thesis using ind'[of c] ind'[OF qN] len' by simp
      qed
    qed
  qed
  have c9: "\<forall>q<length st'. sorted_wrt (\<lambda>a b. indent (st' ! b) \<le> indent (st' ! a)) (children (st' ! q))"
  proof (intro allI impI)
    fix q assume q: "q < length st'"
    show "sorted_wrt (\<lambda>a b. indent (st' ! b) \<le> indent (st' ! a)) (children (st' ! q))"
    proof (cases "q = N")
      case True
      then show ?thesis using new nd by simp
    next
      case False
      then have qN: "q < N" using q len' by simp
      have old: "sorted_wrt (\<lambda>a b. indent (st' ! b) \<le> indent (st' ! a)) (children (st ! q))"
        using chs[of q] qN ch[of q] ind'
        by (auto simp: N_def sorted_wrt_iff_nth_less)
      show ?thesis
      proof (cases "q = p")
        case True
        have "\<forall>a\<in>set (children (st ! p)). indent (st' ! N) \<le> indent (st' ! a)"
          using above ch[of p] pN ind' new nd by (auto simp: N_def)
        then show ?thesis using old True ch'[OF pN] by (simp add: sorted_wrt_append)
      next
        case False
        then show ?thesis using old ch'[OF qN] by simp
      qed
    qed
  qed
  have c10: "children (st' ! last (stk' @ [N])) = []" using new nd by simp
  have c11: "\<forall>k. Suc k < length (stk' @ [N]) \<longrightarrow>
         children (st' ! ((stk' @ [N]) ! k)) \<noteq> [] \<and>
         last (children (st' ! ((stk' @ [N]) ! k))) = (stk' @ [N]) ! Suc k"
  proof (intro allI impI)
    fix k assume "Suc k < length (stk' @ [N])"
    have len_stk': "length stk' = n" using n(1) by (simp add: stk'_def)
    from \<open>Suc k < length (stk' @ [N])\<close> have kn: "k < n" using len_stk' by simp
    have sk: "(stk' @ [N]) ! k = stk ! k" using kn len_stk' by (simp add: nth_append stk'_def)
    have skN: "stk ! k < N" using bnd[of "stk ! k"] kn n(1) by (simp add: N_def)
    show "children (st' ! ((stk' @ [N]) ! k)) \<noteq> [] \<and>
         last (children (st' ! ((stk' @ [N]) ! k))) = (stk' @ [N]) ! Suc k"
    proof (cases "Suc k = n")
      case True
      then have "stk ! k = p" by (auto simp: p_def)
      moreover have "(stk' @ [N]) ! Suc k = N" using True len_stk' by (simp add: nth_append)
      ultimately show ?thesis using sk ch'[OF pN] by simp
    next
      case False
      then have k2: "Suc k < n" using kn by simp
      then have "stk ! k \<noteq> p"
        using sorted_wrt_lt_nth_neq[OF srt, of k "n - 1"] n(1) by (simp add: p_def)
      moreover have "(stk' @ [N]) ! Suc k = stk ! Suc k"
        using k2 len_stk' by (simp add: nth_append stk'_def)
      ultimately show ?thesis using sk ch'[OF skN] lnk[of k] k2 n(1) by simp
    qed
  qed
  have c2: "hd (stk' @ [N]) = 0" using stk'_ne hd0 n0 by (simp add: stk'_def)
  have c4: "indent (st' ! 0) = - 1" using ind'[of 0] ind0 pN by simp
  have c3: "st' \<noteq> []" using len' by auto
  have "parser_inv \<lparr>nodes = st', stack = stk' @ [N]\<rparr>"
    unfolding parser_inv_def Let_def
    using c2 c3 c4 c5 c6 c7 c8 c9 c10 c11 by (simp del: last_snoc)
  then show ?thesis
    using stk'_ne lastp unfolding n(2) stk'_def[symmetric] st'_def N_def by simp
qed

lemma parser_inv_same_shape:
  assumes "length st' = length st" "\<And>i. indent (st' ! i) = indent (st ! i)"
    "\<And>i. children (st' ! i) = children (st ! i)"
  shows "parser_inv \<lparr>nodes = st', stack = stk\<rparr> = parser_inv \<lparr>nodes = st, stack = stk\<rparr>"
proof -
  have "st' \<noteq> [] \<longleftrightarrow> st \<noteq> []" using assms(1) by (metis length_0_conv)
  then show ?thesis by (simp add: parser_inv_def assms)
qed

lemma parser_inv_fields:
  "parser_inv ps = parser_inv \<lparr>nodes = nodes ps, stack = stack ps\<rparr>"
  by (simp add: parser_inv_def)

lemma parser_inv_set_attr:
  assumes "parser_inv ps" "indent nd = indent (nodes ps ! last (stack ps))"
    "children nd = children (nodes ps ! last (stack ps))"
  shows "parser_inv (ps\<lparr>nodes := (nodes ps)[last (stack ps) := nd]\<rparr>)"
proof -
  have a: "last (stack ps) < length (nodes ps)"
    using assms(1) by (simp add: parser_inv_def Let_def)
  have "parser_inv \<lparr>nodes = (nodes ps)[last (stack ps) := nd], stack = stack ps\<rparr>
        = parser_inv \<lparr>nodes = nodes ps, stack = stack ps\<rparr>"
    by (rule parser_inv_same_shape) (use assms(2,3) a in \<open>auto simp: nth_list_update\<close>)
  then show ?thesis
    using assms(1) parser_inv_fields[of ps]
      parser_inv_fields[of "ps\<lparr>nodes := (nodes ps)[last (stack ps) := nd]\<rparr>"] by simp
qed

lemma parse_line_inv:
  assumes "parser_inv ps"
  shows "\<exists>ps'. parse_line ps line = Inr ps' \<and> parser_inv ps'"
proof (cases "LINE_RE_match line")
  case None
  then show ?thesis using assms by (simp add: parse_line_def)
next
  case (Some m)
  obtain ws b where m: "m = (ws, b)" by (cases m)
  have ne: "stack ps \<noteq> []" using assms by (simp add: parser_inv_def Let_def)
  show ?thesis
  proof (cases "URL_RE_match (strip b)")
    case (Some u)
    then show ?thesis
      using \<open>LINE_RE_match line = Some m\<close> m ne parser_inv_set_attr[OF assms]
      by (simp add: parse_line_def)
  next
    case None
    note no_url = this
    show ?thesis
    proof (cases "TEXT_KV_RE_match (strip b)")
      case (Some t)
      then show ?thesis
        using \<open>LINE_RE_match line = Some m\<close> m ne no_url parser_inv_set_attr[OF assms]
        by (simp add: parse_line_def)
    next
      case None
      have "parser_inv \<lparr>nodes = nodes ps, stack = stack ps\<rparr>"
        using assms parser_inv_fields[of ps] by simp
      from parser_inv_push[OF this, of "int (length ws)" "new_node (strip b) (int (length ws))"]
      show ?thesis
        using \<open>LINE_RE_match line = Some m\<close> m no_url None
        by (simp add: parse_line_def new_node_def Let_def)
    qed
  qed
qed

lemma parse_lines_inv:
  "parser_inv ps \<Longrightarrow> \<exists>ps'. parse_lines ps ls = Inr ps' \<and> parser_inv ps'"
proof (induction ls arbitrary: ps)
  case Nil
  then show ?case by simp
next
  case (Cons l ls)
  from parse_line_inv[OF Cons.prems, of l] obtain ps1
    where "parse_line ps l = Inr ps1" "parser_inv ps1" by blast
  then show ?case using Cons.IH[of ps1] by simp
qed

lemma parser_inv_init: "parser_inv \<lparr>nodes = [root_node], stack = [root]\<rparr>"
  by (simp add: parser_inv_def root_def root_node_def)

lemma parse_snapshot_inv:
  "\<exists>ps. parse_snapshot snapshot_text = Inr (nodes ps) \<and> parser_inv ps"
  using parse_lines_inv[OF parser_inv_init, of "splitlines snapshot_text"]
  by (auto simp: parse_snapshot_def)

subsection \<open>Indentation along the edges of the tree\<close>

text \<open>
  Claim C8. For every input text, \<^const>\<open>parse_snapshot\<close> returns a store (it never
  raises), the synthetic root has indentation -1, and for every edge of the tree the
  indentation of the child is strictly greater than the indentation of its parent.
\<close>

theorem parse_snapshot_child_indent:
  "\<exists>st. parse_snapshot snapshot_text = Inr st \<and> indent (st ! root) = - 1 \<and>
     (\<forall>p<length st. \<forall>c\<in>set (children (st ! p)). indent (st ! p) < indent (st ! c))"
proof -
  obtain ps where "parse_snapshot snapshot_text = Inr (nodes ps)" "parser_inv ps"
    using parse_snapshot_inv by blast
  then show ?thesis
    by (intro exI[of _ "nodes ps"]) (simp add: parser_inv_def Let_def root_def)
qed

theorem parse_snapshot_child_indent_witness:
  "\<exists>st. parse_snapshot ''- main\<newline>  - button \"Go\" [ref=e1]'' = Inr st \<and> 1 < length st \<and>
     2 \<in> set (children (st ! 1)) \<and> indent (st ! 1) < indent (st ! 2)"
proof -
  let ?T = "''- main\<newline>  - button \"Go\" [ref=e1]''"
  have e: "case parse_snapshot ?T of Inl _ \<Rightarrow> False
           | Inr st \<Rightarrow> 1 < length st \<and> 2 \<in> set (children (st ! 1))"
    by code_simp
  from parse_snapshot_child_indent[of ?T] obtain st where st: "parse_snapshot ?T = Inr st"
    and h: "\<forall>p<length st. \<forall>c\<in>set (children (st ! p)). indent (st ! p) < indent (st ! c)"
    by blast
  from e st have "1 < length st" "2 \<in> set (children (st ! 1))" by simp_all
  with h st show ?thesis by blast
qed

subsection \<open>Indentation among siblings\<close>

text \<open>
  Claim C9 says that all children of a node have the same indentation. The parser
  attaches a line to the nearest open node that is less indented, whatever the
  indentation of that node's earlier children: in the three lines below, the second line
  (indentation 4) and the third (indentation 2) both become children of the first.
\<close>

theorem parse_snapshot_siblings_counterexample:
  "sibling_indents ''- a\<newline>    - b\<newline>  - c'' 1 = Inr [4, 2]"
  by code_simp

text \<open>
  Claim C9, amended. For every input text, the indentations of the children of a node
  never increase from one child to a later one: each child is at most as indented as
  every sibling before it (and, by C8, more indented than the parent).
\<close>

theorem parse_snapshot_siblings_nonincreasing:
  "\<exists>st. parse_snapshot snapshot_text = Inr st \<and>
     (\<forall>p<length st.
        sorted_wrt (\<lambda>a b. indent (st ! b) \<le> indent (st ! a)) (children (st ! p)))"
proof -
  obtain ps where "parse_snapshot snapshot_text = Inr (nodes ps)" "parser_inv ps"
    using parse_snapshot_inv by blast
  then show ?thesis
    by (intro exI[of _ "nodes ps"]) (simp add: parser_inv_def Let_def)
qed

theorem parse_snapshot_siblings_nonincreasing_witness:
  "\<exists>st. parse_snapshot ''- a\<newline>    - b\<newline>  - c\<newline>  - d'' = Inr st \<and> 1 < length st \<and>
     children (st ! 1) = [2, 3, 4] \<and> indent (st ! 3) \<le> indent (st ! 2) \<and>
     indent (st ! 4) \<le> indent (st ! 3)"
proof -
  let ?T = "''- a\<newline>    - b\<newline>  - c\<newline>  - d''"
  have e: "case parse_snapshot ?T of Inl _ \<Rightarrow> False
           | Inr st \<Rightarrow> 1 < length st \<and> children (st ! 1) = [2, 3, 4]"
    by code_simp
  from parse_snapshot_siblings_nonincreasing[of ?T] obtain st
    where st: "parse_snapshot ?T = Inr st"
    and h: "\<forall>p<length st.
        sorted_wrt (\<lambda>a b. indent (st ! b) \<le> indent (st ! a)) (children (st ! p))"
    by blast
  from e st have l: "1 < length st" and c: "children (st ! 1) = [2, 3, 4]" by simp_all
  from h l have "sorted_wrt (\<lambda>a b. indent (st ! b) \<le> indent (st ! a)) (children (st ! 1))"
    by blast
  with c st l show ?thesis by simp
qed

section \<open>The parsed store is a tree, and the walks over it return\<close>

lemma lbl_in_preorder: "lbl t \<in> set (preorder t)"
  by (cases t) simp

lemma hd_preorder: "hd (preorder t) = lbl t"
  by (cases t) simp

lemma repr_bound: "repr st t \<Longrightarrow> i \<in> set (preorder t) \<Longrightarrow> i < length st"
  by (induction t) auto

lemma repr_cong:
  "repr st t \<Longrightarrow> length st \<le> length st' \<Longrightarrow>
   (\<And>i. i \<in> set (preorder t) \<Longrightarrow> children (st' ! i) = children (st ! i)) \<Longrightarrow> repr st' t"
  by (induction t) auto

lemma repr_subtree:
  "repr st t \<Longrightarrow> i \<in> set (preorder t) \<Longrightarrow> \<exists>t'. repr st t' \<and> lbl t' = i \<and> set (preorder t') \<subseteq> set (preorder t)"
proof (induction t)
  case (T j ts)
  show ?case
  proof (cases "i = j")
    case True
    then show ?thesis using T.prems(1) by (intro exI[of _ "T j ts"]) simp
  next
    case False
    then obtain t where t: "t \<in> set ts" "i \<in> set (preorder t)" using T.prems(2) by auto
    then have "repr st t" using T.prems(1) by simp
    from T.IH[OF t(1) this t(2)] obtain t' where "repr st t'" "lbl t' = i"
      "set (preorder t') \<subseteq> set (preorder t)" by blast
    then show ?thesis using t(1) by (intro exI[of _ t']) auto
  qed
qed

lemma lbl_build_spine: "sp \<noteq> [] \<Longrightarrow> lbl (build_spine sp) = fst (hd sp)"
  by (induction sp rule: build_spine.induct) auto

lemma last_in_build_spine: "sp \<noteq> [] \<Longrightarrow> fst (last sp) \<in> set (preorder (build_spine sp))"
  by (induction sp rule: build_spine.induct) auto

lemma build_spine_merge:
  "build_spine (sp @ [(s, F), (s', F')]) = build_spine (sp @ [(s, F @ [T s' F'])])"
proof (induction sp)
  case Nil
  then show ?case by simp
next
  case (Cons a sp)
  obtain x G where a: "a = (x, G)" by (cases a)
  have "build_spine ((x, G) # sp @ [(s, F), (s', F')]) = T x (G @ [build_spine (sp @ [(s, F), (s', F')])])"
    by (cases sp) auto
  moreover have "build_spine ((x, G) # sp @ [(s, F @ [T s' F'])]) = T x (G @ [build_spine (sp @ [(s, F @ [T s' F'])])])"
    by (cases sp) auto
  ultimately show ?case using Cons a by simp
qed

lemma build_spine_take:
  "0 < n \<Longrightarrow> n \<le> length sp \<Longrightarrow>
   \<exists>sp'. sp' \<noteq> [] \<and> map fst sp' = take n (map fst sp) \<and> build_spine sp' = build_spine sp"
proof (induction "length sp - n" arbitrary: sp)
  case 0
  then show ?case by (intro exI[of _ sp]) auto
next
  case (Suc d)
  then have "2 \<le> length sp" by simp
  then obtain sp1 b where sp1: "sp = sp1 @ [b]" by (cases sp rule: rev_cases) auto
  with \<open>2 \<le> length sp\<close> obtain sp0 a where "sp1 = sp0 @ [a]"
    by (cases sp1 rule: rev_cases) auto
  with sp1 have sp: "sp = sp0 @ [a, b]" by simp
  obtain s F s' F' where ab: "a = (s, F)" "b = (s', F')" by (cases a, cases b) auto
  let ?sp1 = "sp0 @ [(s, F @ [T s' F'])]"
  have 1: "build_spine ?sp1 = build_spine sp" using sp ab build_spine_merge by simp
  have 2: "map fst ?sp1 = butlast (map fst sp)" using sp ab by (simp add: butlast_append)
  have 3: "d = length ?sp1 - n" "n \<le> length ?sp1" using Suc.hyps(2) sp by auto
  from Suc.hyps(1)[OF 3(1) Suc.prems(1) 3(2)] obtain sp' where
    "sp' \<noteq> []" "map fst sp' = take n (map fst ?sp1)" "build_spine sp' = build_spine ?sp1" by blast
  moreover have "take n (butlast (map fst sp)) = take n (map fst sp)"
    using 3(2) sp by (simp add: take_butlast)
  ultimately have "sp' \<noteq> [] \<and> map fst sp' = take n (map fst sp) \<and> build_spine sp' = build_spine sp"
    using 1 2 by metis
  then show ?case by blast
qed

lemma build_spine_push:
  assumes "sp \<noteq> []" "repr st (build_spine sp)" "distinct (preorder (build_spine sp))"
    "children nd = []"
  shows "repr (add_child st (fst (last sp)) (length st) @ [nd]) (build_spine (sp @ [(length st, [])]))
       \<and> preorder (build_spine (sp @ [(length st, [])])) = preorder (build_spine sp) @ [length st]"
  using assms
proof (induction sp rule: build_spine.induct)
  case 1
  then show ?case by simp
next
  case (2 s F)
  let ?st' = "add_child st s (length st) @ [nd]"
  have s: "s < length st" using 2 by simp
  have "repr ?st' t" if "t \<in> set F" for t
  proof (rule repr_cong)
    show "repr st t" using 2 that by simp
    show "length st \<le> length ?st'" by (simp add: add_child_def)
    fix i assume i: "i \<in> set (preorder t)"
    then have "i \<noteq> s" using 2(3) that by auto
    moreover have "i < length st" using repr_bound[of st t i] 2 that i by simp
    ultimately show "children (?st' ! i) = children (st ! i)"
      using add_child_props(3)[OF s, of i "length st" nd] by simp
  qed
  moreover have "children (?st' ! s) = map lbl F @ [length st]"
    using add_child_props(3)[OF s, of s "length st" nd] s 2 by simp
  moreover have "?st' ! length st = nd" using add_child_props(4)[OF s] by simp
  moreover have "length ?st' = Suc (length st)" using add_child_props(1)[OF s] by simp
  ultimately show ?case using 2(4) s by simp
next
  case (3 s F v va)
  let ?sp = "v # va"
  let ?p = "fst (last ?sp)"
  let ?st' = "add_child st ?p (length st) @ [nd]"
  have bs: "build_spine ((s, F) # ?sp) = T s (F @ [build_spine ?sp])" by (cases v) simp
  have bs': "build_spine (((s, F) # ?sp) @ [(length st, [])]) =
            T s (F @ [build_spine (?sp @ [(length st, [])])])" by (cases v) simp
  have r: "repr st (build_spine ?sp)" and d: "distinct (preorder (build_spine ?sp))"
    using "3.prems"(2,3) bs by auto
  have pin: "?p \<in> set (preorder (build_spine ?sp))" using last_in_build_spine[of ?sp] by simp
  have p: "?p < length st" using repr_bound[OF r pin] .
  from "3.IH"[OF _ r d "3.prems"(4)]
  have ih: "repr ?st' (build_spine (?sp @ [(length st, [])]))"
    "preorder (build_spine (?sp @ [(length st, [])])) = preorder (build_spine ?sp) @ [length st]"
    by simp_all
  have s: "s < length st" using "3.prems"(2) bs by simp
  have sp: "s \<noteq> ?p" using "3.prems"(3) bs pin by auto
  have cs: "children (?st' ! s) = children (st ! s)"
    using add_child_props(3)[OF p, of s "length st" nd] s sp by simp
  have l: "lbl (build_spine (?sp @ [(length st, [])])) = lbl (build_spine ?sp)"
    using lbl_build_spine[of ?sp] lbl_build_spine[of "?sp @ [(length st, [])]"] by simp
  have "repr ?st' t" if "t \<in> set F" for t
  proof (rule repr_cong)
    show "repr st t" using "3.prems"(2) bs that by simp
    show "length st \<le> length ?st'" by (simp add: add_child_def)
    fix i assume i: "i \<in> set (preorder t)"
    then have "i \<noteq> ?p" using "3.prems"(3) bs that pin by auto
    moreover have "i < length st"
      using repr_bound[of st t i] "3.prems"(2) bs that i by simp
    ultimately show "children (?st' ! i) = children (st ! i)"
      using add_child_props(3)[OF p, of i "length st" nd] by simp
  qed
  moreover have "s < length ?st'" using s by (simp add: add_child_def)
  moreover have "children (?st' ! s) = map lbl F @ [lbl (build_spine (?sp @ [(length st, [])]))]"
    using cs l "3.prems"(2) bs by simp
  ultimately have "repr ?st' (T s (F @ [build_spine (?sp @ [(length st, [])])]))"
    using ih(1) by simp
  moreover have "preorder (T s (F @ [build_spine (?sp @ [(length st, [])])])) =
       preorder (T s (F @ [build_spine ?sp])) @ [length st]"
    using ih(2) by simp
  ultimately show ?case unfolding bs bs' by simp
qed

lemma tree_inv_fields: "tree_inv ps = tree_inv \<lparr>nodes = nodes ps, stack = stack ps\<rparr>"
  by (simp add: tree_inv_def)

lemma tree_inv_push:
  assumes inv: "tree_inv \<lparr>nodes = st, stack = stk\<rparr>"
    and pop: "pop_while st ind stk \<noteq> []" and nd: "children nd = []"
  shows "tree_inv \<lparr>nodes = add_child st (last (pop_while st ind stk)) (length st) @ [nd],
                   stack = pop_while st ind stk @ [length st]\<rparr>"
proof -
  from inv obtain sp where sp: "sp \<noteq> []" "map fst sp = stk" "repr st (build_spine sp)"
    "preorder (build_spine sp) = [0..<length st]" by (auto simp: tree_inv_def)
  obtain n where n: "n \<le> length stk" "pop_while st ind stk = take n stk"
    using pop_while_take[of stk st ind] by blast
  have n0: "0 < n" using pop n(2) by (cases n) auto
  from build_spine_take[OF n0, of sp] n(1) sp(2) obtain sp' where sp': "sp' \<noteq> []"
    "map fst sp' = take n stk" "build_spine sp' = build_spine sp" by auto
  have l: "fst (last sp') = last (pop_while st ind stk)"
    using sp'(1,2) n(2) by (metis last_map)
  have d: "distinct (preorder (build_spine sp'))" using sp'(3) sp(4) by simp
  from build_spine_push[OF sp'(1) _ d nd, of st] sp(3) sp'(3)
  have "repr (add_child st (fst (last sp')) (length st) @ [nd]) (build_spine (sp' @ [(length st, [])]))"
    "preorder (build_spine (sp' @ [(length st, [])])) = [0..<length st] @ [length st]"
    using sp(4) by simp_all
  moreover have "fst (last sp') < length st"
    using repr_bound[of st "build_spine sp'" "fst (last sp')"] last_in_build_spine[OF sp'(1)]
      sp(3) sp'(3) by simp
  ultimately show ?thesis
    unfolding tree_inv_def using sp'(2) n(2) l
    by (intro exI[of _ "sp' @ [(length st, [])]"]) (simp add: add_child_def)
qed

lemma tree_inv_set_attr:
  assumes "tree_inv ps" "stack ps \<noteq> []" "children nd = children (nodes ps ! last (stack ps))"
  shows "tree_inv (ps\<lparr>nodes := (nodes ps)[last (stack ps) := nd]\<rparr>)"
proof -
  from assms(1) obtain sp where sp: "sp \<noteq> []" "map fst sp = stack ps"
    "repr (nodes ps) (build_spine sp)"
    "preorder (build_spine sp) = [0..<length (nodes ps)]" by (auto simp: tree_inv_def)
  have "repr ((nodes ps)[last (stack ps) := nd]) (build_spine sp)"
  proof (rule repr_cong[OF sp(3)])
    show "length (nodes ps) \<le> length ((nodes ps)[last (stack ps) := nd])" by simp
    fix i assume "i \<in> set (preorder (build_spine sp))"
    then have "i < length (nodes ps)" using sp(4) by simp
    then show "children ((nodes ps)[last (stack ps) := nd] ! i) = children (nodes ps ! i)"
      using assms(3) by (cases "i = last (stack ps)") simp_all
  qed
  then show ?thesis unfolding tree_inv_def using sp by (intro exI[of _ sp]) simp
qed

lemma parse_line_tree_inv:
  assumes "parser_inv ps" "tree_inv ps" "parse_line ps line = Inr ps'"
  shows "tree_inv ps'"
proof (cases "LINE_RE_match line")
  case None
  then show ?thesis using assms by (simp add: parse_line_def)
next
  case (Some m)
  obtain ws b where m: "m = (ws, b)" by (cases m)
  have ne: "stack ps \<noteq> []" using assms(1) by (simp add: parser_inv_def Let_def)
  show ?thesis
  proof (cases "URL_RE_match (strip b)")
    case (Some u)
    then show ?thesis
      using \<open>LINE_RE_match line = Some m\<close> m ne tree_inv_set_attr[OF assms(2) ne] assms(3)
      by (auto simp: parse_line_def)
  next
    case None
    note no_url = this
    show ?thesis
    proof (cases "TEXT_KV_RE_match (strip b)")
      case (Some t)
      then show ?thesis
        using \<open>LINE_RE_match line = Some m\<close> m ne no_url tree_inv_set_attr[OF assms(2) ne] assms(3)
        by (auto simp: parse_line_def)
    next
      case None
      have t: "tree_inv \<lparr>nodes = nodes ps, stack = stack ps\<rparr>"
        using assms(2) tree_inv_fields[of ps] by simp
      have pne: "pop_while (nodes ps) (int (length ws)) (stack ps) \<noteq> []"
        using assms(3) \<open>LINE_RE_match line = Some m\<close> m no_url None
        by (auto simp: parse_line_def Let_def split: if_splits)
      from tree_inv_push[OF t pne, of "new_node (strip b) (int (length ws))"]
      show ?thesis
        using assms(3) \<open>LINE_RE_match line = Some m\<close> m no_url None pne
        by (auto simp: parse_line_def new_node_def Let_def)
    qed
  qed
qed

lemma parse_lines_tree_inv:
  "parser_inv ps \<Longrightarrow> tree_inv ps \<Longrightarrow> parse_lines ps ls = Inr ps' \<Longrightarrow> tree_inv ps'"
proof (induction ls arbitrary: ps)
  case Nil
  then show ?case by simp
next
  case (Cons l ls)
  from parse_line_inv[OF Cons.prems(1), of l] obtain ps1
    where 1: "parse_line ps l = Inr ps1" "parser_inv ps1" by blast
  have "tree_inv ps1" using parse_line_tree_inv[OF Cons.prems(1,2) 1(1)] .
  then show ?case using Cons.IH[OF 1(2)] Cons.prems(3) 1(1) by simp
qed

lemma tree_inv_init: "tree_inv \<lparr>nodes = [root_node], stack = [root]\<rparr>"
  unfolding tree_inv_def
  by (intro exI[of _ "[(0, [])]"]) (simp add: root_def root_node_def)

lemma parse_snapshot_tree:
  "\<exists>st t. parse_snapshot txt = Inr st \<and> repr st t \<and> preorder t = [0..<length st] \<and> st \<noteq> []"
proof -
  obtain ps where ps: "parse_lines \<lparr>nodes = [root_node], stack = [root]\<rparr> (splitlines txt) = Inr ps"
    "parser_inv ps"
    using parse_lines_inv[OF parser_inv_init, of "splitlines txt"] by blast
  have "tree_inv ps" using parse_lines_tree_inv[OF parser_inv_init tree_inv_init ps(1)] .
  then obtain sp where "repr (nodes ps) (build_spine sp)"
    "preorder (build_spine sp) = [0..<length (nodes ps)]" by (auto simp: tree_inv_def)
  moreover have "nodes ps \<noteq> []" using ps(2) by (simp add: parser_inv_def Let_def)
  ultimately show ?thesis using ps(1) by (auto simp: parse_snapshot_def)
qed

lemma size_forest_append [simp]:
  "size_list size (xs @ ys) = size_list size xs + size_list (size :: tree \<Rightarrow> nat) ys"
  by (induction xs) auto

lemma iter_nodes_loop_forest:
  "(\<forall>t\<in>set ts. repr st t) \<Longrightarrow>
   iter_nodes_loop st (rev (map lbl ts)) out = Some (out @ concat (map preorder ts))"
proof (induction "size_list size ts" arbitrary: ts out rule: less_induct)
  case less
  show ?case
  proof (cases ts)
    case Nil
    then show ?thesis by (subst iter_nodes_loop.simps) simp
  next
    case (Cons t ts')
    obtain i cs where t: "t = T i cs" by (cases t)
    have c: "children (st ! i) = map lbl cs" using less.prems Cons t by simp
    have "iter_nodes_loop st (rev (map lbl ts)) out =
          iter_nodes_loop st (rev (map lbl (cs @ ts'))) (out @ [i])"
      using Cons t c by (subst iter_nodes_loop.simps) simp
    also have "\<dots> = Some ((out @ [i]) @ concat (map preorder (cs @ ts')))"
      by (rule less.hyps) (use less.prems Cons t in auto)
    finally show ?thesis using Cons t by simp
  qed
qed

lemma iter_nodes_repr: "repr st t \<Longrightarrow> iter_nodes st (lbl t) = Some (preorder t)"
  using iter_nodes_loop_forest[of "[t]" st "[]"] by (simp add: iter_nodes_def)

lemma chains_for_children_ok:
  "chns n = Some a \<Longrightarrow> n \<notin> set cs \<Longrightarrow>
   chains_for_children n cs chns stk =
     Inr (\<lambda>x. if x \<in> set cs then Some (a @ [n]) else chns x, stk @ cs)"
proof (induction cs arbitrary: chns stk)
  case Nil
  then show ?case by simp
next
  case (Cons c cs)
  have "chains_for_children n (c # cs) chns stk =
        chains_for_children n cs (chns(c \<mapsto> a @ [n])) (stk @ [c])"
    using Cons.prems by simp
  also have "\<dots> = Inr (\<lambda>x. if x \<in> set cs then Some (a @ [n]) else (chns(c \<mapsto> a @ [n])) x, (stk @ [c]) @ cs)"
    by (rule Cons.IH) (use Cons.prems in auto)
  also have "(\<lambda>x. if x \<in> set cs then Some (a @ [n]) else (chns(c \<mapsto> a @ [n])) x)
           = (\<lambda>x. if x \<in> set (c # cs) then Some (a @ [n]) else chns x)"
    by auto
  finally show ?case by simp
qed

lemma set_preorder_forest_lbl: "t \<in> set ts \<Longrightarrow> lbl t \<in> set (concat (map preorder ts))"
  using lbl_in_preorder by auto

lemma ancestors_loop_forest:
  assumes "\<forall>t\<in>set ts. repr st t" "distinct (concat (map preorder ts))"
    "\<forall>t\<in>set ts. chns (lbl t) \<noteq> None"
  shows "\<exists>chns'. ancestors_loop st chns (map lbl ts) = Some (Inr chns') \<and>
           (\<forall>n. n \<notin> set (concat (map preorder ts)) \<longrightarrow> chns' n = chns n) \<and>
           (\<forall>t\<in>set ts. chns' (lbl t) = chns (lbl t)) \<and>
           (\<forall>t\<in>set ts. chains_ok chns' t)"
  using assms
proof (induction "size_list size ts" arbitrary: ts chns rule: less_induct)
  case less
  show ?case
  proof (cases ts rule: rev_cases)
    case Nil
    then show ?thesis by (subst ancestors_loop.simps) simp
  next
    case (snoc ts0 t)
    obtain i cs where t: "t = T i cs" by (cases t)
    have c: "children (st ! i) = map lbl cs" using less.prems(1) snoc t by simp
    obtain a where a: "chns i = Some a" using less.prems(3) snoc t by auto
    have dist: "distinct (concat (map preorder ts0) @ i # concat (map preorder cs))"
      using less.prems(2) snoc t by simp
    have i_cs: "i \<notin> set (concat (map preorder cs))" and i_ts0: "i \<notin> set (concat (map preorder ts0))"
      and disj: "set (concat (map preorder ts0)) \<inter> set (concat (map preorder cs)) = {}"
      using dist by auto
    have i_lbl: "i \<notin> set (map lbl cs)" using i_cs set_preorder_forest_lbl[of _ cs] by auto
    define chns1 where "chns1 = (\<lambda>x. if x \<in> set (map lbl cs) then Some (a @ [i]) else chns x)"
    have step: "ancestors_loop st chns (map lbl ts) = ancestors_loop st chns1 (map lbl (ts0 @ cs))"
      using snoc t c chains_for_children_ok[of chns i a "map lbl cs" "map lbl ts0"] a i_lbl
      by (subst ancestors_loop.simps) (simp add: chns1_def)
    have sz: "size_list size (ts0 @ cs) < size_list size ts" using snoc t by simp
    have p1: "\<forall>t\<in>set (ts0 @ cs). repr st t" using less.prems(1) snoc t by auto
    have p2: "distinct (concat (map preorder (ts0 @ cs)))" using dist by auto
    have lbl_ts0: "lbl u \<notin> set (map lbl cs)" if "u \<in> set ts0" for u
      using that disj set_preorder_forest_lbl[of u ts0] set_preorder_forest_lbl[of _ cs] by auto
    have p3: "\<forall>t\<in>set (ts0 @ cs). chns1 (lbl t) \<noteq> None"
      using less.prems(3) snoc lbl_ts0 by (auto simp: chns1_def)
    from less.hyps[OF sz p1 p2 p3] obtain chns' where r:
      "ancestors_loop st chns1 (map lbl (ts0 @ cs)) = Some (Inr chns')"
      "\<forall>n. n \<notin> set (concat (map preorder (ts0 @ cs))) \<longrightarrow> chns' n = chns1 n"
      "\<forall>t\<in>set (ts0 @ cs). chns' (lbl t) = chns1 (lbl t)"
      "\<forall>t\<in>set (ts0 @ cs). chains_ok chns' t" by blast
    have out: "chns' n = chns n" if "n \<notin> set (concat (map preorder ts))" for n
    proof -
      have "n \<notin> set (concat (map preorder (ts0 @ cs)))" using that snoc t by auto
      moreover have "n \<notin> set (map lbl cs)" using that snoc t set_preorder_forest_lbl[of _ cs] by auto
      ultimately show ?thesis using r(2) by (simp add: chns1_def)
    qed
    have ci: "chns' i = chns i"
      using r(2) i_cs i_ts0 i_lbl by (simp add: chns1_def)
    have roots: "chns' (lbl u) = chns (lbl u)" if "u \<in> set ts" for u
    proof (cases "u \<in> set ts0")
      case True
      then show ?thesis using r(3) lbl_ts0[OF True] by (simp add: chns1_def)
    next
      case False
      then have "u = T i cs" using that snoc t by simp
      then show ?thesis using ci by simp
    qed
    have "chains_ok chns' (T i cs)"
      using r(3,4) ci a by (auto simp: chns1_def)
    then have ok: "\<forall>u\<in>set ts. chains_ok chns' u" using r(4) snoc t by auto
    show ?thesis using step r(1) out roots ok by auto
  qed
qed

lemma ancestor_path_snoc:
  "ancestor_path st r a p \<Longrightarrow> c \<in> set (children (st ! p)) \<Longrightarrow> ancestor_path st r (a @ [p]) c"
  by (induction st r a p rule: ancestor_path.induct) auto

lemma chains_ok_paths:
  "repr st t \<Longrightarrow> chains_ok chns t \<Longrightarrow> chns (lbl t) = Some a \<Longrightarrow> ancestor_path st r a (lbl t) \<Longrightarrow>
   n \<in> set (preorder t) \<Longrightarrow> \<exists>b. chns n = Some b \<and> ancestor_path st r b n"
proof (induction t arbitrary: a)
  case (T i ts)
  show ?case
  proof (cases "n = i")
    case True
    then show ?thesis using T.prems by simp
  next
    case False
    then obtain t where t: "t \<in> set ts" "n \<in> set (preorder t)" using T.prems(5) by auto
    have "lbl t \<in> set (children (st ! i))" using T.prems(1) t(1) by simp
    then have "ancestor_path st r (a @ [i]) (lbl t)"
      using ancestor_path_snoc T.prems(4) by simp
    moreover have "chns (lbl t) = Some (a @ [i])" using T.prems(2,3) t(1) by simp
    moreover have "repr st t" "chains_ok chns t" using T.prems(1,2) t(1) by auto
    ultimately show ?thesis using T.IH[OF t(1)] t(2) by blast
  qed
qed

lemma ancestors_with_context_repr:
  assumes "repr st t" "distinct (preorder t)"
  shows "\<exists>chns. ancestors_with_context st (lbl t) = Some (Inr chns) \<and>
           (\<forall>n\<in>set (preorder t). \<exists>b. chns n = Some b \<and> ancestor_path st (lbl t) b n)"
proof -
  from ancestors_loop_forest[of "[t]" st "[lbl t \<mapsto> []]"] assms
  obtain chns where c: "ancestors_loop st [lbl t \<mapsto> []] [lbl t] = Some (Inr chns)"
    "chns (lbl t) = Some []" "chains_ok chns t" by auto
  have "\<exists>b. chns n = Some b \<and> ancestor_path st (lbl t) b n" if "n \<in> set (preorder t)" for n
    using chains_ok_paths[OF assms(1) c(3) c(2) _ that, of "lbl t"] by simp
  then show ?thesis using c(1) by (auto simp: ancestors_with_context_def)
qed

lemma parsed_store_walks:
  "\<exists>st. parse_snapshot txt = Inr st \<and> st \<noteq> [] \<and>
     iter_nodes st root = Some [0..<length st] \<and>
     (\<forall>i<length st. \<exists>ns. iter_nodes st i = Some ns \<and> set ns \<subseteq> {0..<length st}) \<and>
     (\<exists>chns. ancestors_with_context st root = Some (Inr chns) \<and>
        (\<forall>n<length st. \<exists>b. chns n = Some b \<and> ancestor_path st root b n))"
proof -
  obtain st t where st: "parse_snapshot txt = Inr st" "repr st t" "preorder t = [0..<length st]"
    "st \<noteq> []" using parse_snapshot_tree by blast
  have l: "lbl t = root" using hd_preorder[of t] st(3,4) by (simp add: root_def upt_conv_Cons)
  have 1: "iter_nodes st root = Some [0..<length st]" using iter_nodes_repr[OF st(2)] l st(3) by simp
  have 2: "\<exists>ns. iter_nodes st i = Some ns \<and> set ns \<subseteq> {0..<length st}" if "i < length st" for i
  proof -
    from repr_subtree[OF st(2), of i] that st(3) obtain t' where
      "repr st t'" "lbl t' = i" "set (preorder t') \<subseteq> set (preorder t)" by auto
    then show ?thesis using iter_nodes_repr[of st t'] st(3) by auto
  qed
  have "distinct (preorder t)" using st(3) by simp
  from ancestors_with_context_repr[OF st(2) this] l st(3)
  have 3: "\<exists>chns. ancestors_with_context st root = Some (Inr chns) \<and>
        (\<forall>n<length st. \<exists>b. chns n = Some b \<and> ancestor_path st root b n)" by auto
  show ?thesis using st(1,4) 1 2 3 by blast
qed

section \<open>Properties of the context model builder\<close>

lemma map_of_index:
  assumes "map snd im = [0..<length im]" "distinct (map fst im)"
  shows "(map_of im k = Some a) = (a < length im \<and> fst (im ! a) = k)"
proof -
  have s: "snd (im ! i) = i" if "i < length im" for i
    using arg_cong[OF assms(1), of "\<lambda>xs. xs ! i"] that by simp
  have "(map_of im k = Some a) = ((k, a) \<in> set im)"
    using assms(2) by (rule map_of_eq_Some_iff)
  also have "\<dots> = (a < length im \<and> fst (im ! a) = k)"
  proof
    assume "(k, a) \<in> set im"
    then obtain i where i: "i < length im" "im ! i = (k, a)" by (auto simp: in_set_conv_nth)
    then have "i = a" using s[of i] by simp
    then show "a < length im \<and> fst (im ! a) = k" using i by simp
  next
    assume a: "a < length im \<and> fst (im ! a) = k"
    then have "im ! a = (k, a)" using s[of a] by (cases "im ! a") auto
    then show "(k, a) \<in> set im" using a by (metis nth_mem)
  qed
  finally show ?thesis .
qed

lemma map_of_None_iff: "(map_of im k = None) = (k \<notin> fst ` set im)"
  by (simp add: map_of_eq_None_iff)

lemma act_core_action_of [simp]: "act_core (action_of n aid) = node_core n"
  by (simp add: act_core_def action_of_def node_core_def)

lemma map_fst_append_item [simp]: "map fst (append_item secs sid a) = map fst secs"
  by (induction secs) (auto simp: append_item_def)

lemma set_append_item_id:
  "\<forall>ks\<in>set secs. section_id (snd ks) = fst ks \<Longrightarrow>
   \<forall>ks\<in>set (append_item secs sid a). section_id (snd ks) = fst ks"
  by (auto simp: append_item_def split: if_splits)

lemma map_of_append_item:
  "map_of (append_item secs sid a) k =
     map_option (\<lambda>s. if k = sid then s\<lparr>items := items s @ [a]\<rparr> else s) (map_of secs k)"
  by (induction secs) (auto simp: append_item_def)

lemma mset_items_append_item:
  "distinct (map fst secs) \<Longrightarrow> sid \<in> fst ` set secs \<Longrightarrow>
   mset (concat (map (\<lambda>ks. items (snd ks)) (append_item secs sid a)))
     = mset (concat (map (\<lambda>ks. items (snd ks)) secs)) + {#a#}"
proof (induction secs)
  case Nil
  then show ?case by simp
next
  case (Cons p secs)
  obtain k s where p: "p = (k, s)" by (cases p)
  show ?case
  proof (cases "k = sid")
    case True
    then have "sid \<notin> fst ` set secs" using Cons.prems(1) p by auto
    then have "append_item secs sid a = secs"
      by (induction secs) (auto simp: append_item_def)
    then show ?thesis using True p by (simp add: append_item_def)
  next
    case False
    then have "sid \<in> fst ` set secs" using Cons.prems(2) p by auto
    then show ?thesis using Cons.IH Cons.prems(1) False p
      by (simp add: append_item_def)
  qed
qed

lemma mset_actions_update:
  "a < length heap \<Longrightarrow>
   mset (concat (map actions (heap[a := (heap ! a)\<lparr>actions := actions (heap ! a) @ [x]\<rparr>])))
     = mset (concat (map actions heap)) + {#x#}"
proof (induction heap arbitrary: a)
  case Nil
  then show ?case by simp
next
  case (Cons h heap)
  then show ?case by (cases a) auto
qed

lemma build_node_skip: "\<not> qualifies st n \<Longrightarrow> build_node st chns b n = Some (Inr b)"
  by (auto simp: build_node_def qualifies_def)

lemma build_node_new:
  assumes "qualifies st n" "chns n = Some ancs"
    "first_salient_text st (item_container_of st ancs) 80 = Some key"
    "map_of (item_map b) (section_id_of st ancs, item_container_of st ancs) = None"
  shows "\<exists>it. build_node st chns b n =
           Some (Inr \<lparr>sections_dict = append_item (secs_with st ancs b) (section_id_of st ancs)
                                       (length (item_heap b)),
                      item_map = item_map b @
                        [((section_id_of st ancs, item_container_of st ancs), length (item_heap b))],
                      item_heap = item_heap b @ [it]\<rparr>) \<and>
         container_role it = role (st ! item_container_of st ancs) \<and>
         actions it = [action_of (st ! n) (item_id it @ ''/a'' @ str_nat 0)]"
  using assms
  by (simp add: build_node_def qualifies_def Let_def secs_with_def map_add_def)

lemma build_node_old:
  assumes "qualifies st n" "chns n = Some ancs"
    "first_salient_text st (item_container_of st ancs) 80 = Some key"
    "map_of (item_map b) (section_id_of st ancs, item_container_of st ancs) = Some a"
  shows "build_node st chns b n =
           Some (Inr (b\<lparr>sections_dict := secs_with st ancs b,
                        item_heap := (item_heap b)[a := (item_heap b ! a)
                           \<lparr>actions := actions (item_heap b ! a) @
                              [action_of (st ! n) (item_id (item_heap b ! a) @ ''/a'' @
                                 str_nat (length (actions (item_heap b ! a))))]\<rparr>]\<rparr>))"
  using assms
  by (simp add: build_node_def qualifies_def Let_def secs_with_def)

lemma secs_with_props:
  assumes "distinct (map fst (sections_dict b))"
    "\<forall>ks\<in>set (sections_dict b). section_id (snd ks) = fst ks"
  shows "distinct (map fst (secs_with st ancs b))"
    and "\<forall>ks\<in>set (secs_with st ancs b). section_id (snd ks) = fst ks"
    and "section_id_of st ancs \<in> fst ` set (secs_with st ancs b)"
    and "mset (concat (map (\<lambda>ks. items (snd ks)) (secs_with st ancs b)))
         = mset (concat (map (\<lambda>ks. items (snd ks)) (sections_dict b)))"
    and "\<And>k s. map_of (sections_dict b) k = Some s \<Longrightarrow> map_of (secs_with st ancs b) k = Some s"
    and "\<exists>s. map_of (secs_with st ancs b) (section_id_of st ancs) = Some s"
proof -
  show "distinct (map fst (secs_with st ancs b))"
    using assms(1) by (auto simp: secs_with_def map_of_None_iff)
  show "\<forall>ks\<in>set (secs_with st ancs b). section_id (snd ks) = fst ks"
    using assms(2) by (auto simp: secs_with_def)
  show "section_id_of st ancs \<in> fst ` set (secs_with st ancs b)"
    by (auto simp: secs_with_def map_of_None_iff)
  show "mset (concat (map (\<lambda>ks. items (snd ks)) (secs_with st ancs b)))
         = mset (concat (map (\<lambda>ks. items (snd ks)) (sections_dict b)))"
    by (simp add: secs_with_def)
  show "map_of (sections_dict b) k = Some s \<Longrightarrow> map_of (secs_with st ancs b) k = Some s" for k s
    by (auto simp: secs_with_def map_add_def)
  show "\<exists>s. map_of (secs_with st ancs b) (section_id_of st ancs) = Some s"
    by (cases "map_of (sections_dict b) (section_id_of st ancs)")
       (auto simp: secs_with_def map_add_def)
qed

lemma builder_inv_new:
  assumes inv: "builder_inv st chns ns b" and q: "qualifies st n" and ch: "chns n = Some ancs"
    and none: "map_of (item_map b) (section_id_of st ancs, item_container_of st ancs) = None"
    and it: "container_role it = role (st ! item_container_of st ancs)"
            "actions it = [action_of (st ! n) aid]"
  shows "builder_inv st chns (ns @ [n])
           \<lparr>sections_dict = append_item (secs_with st ancs b) (section_id_of st ancs)
                                       (length (item_heap b)),
            item_map = item_map b @
                        [((section_id_of st ancs, item_container_of st ancs), length (item_heap b))],
            item_heap = item_heap b @ [it]\<rparr>"
proof -
  define H where "H = length (item_heap b)"
  define sid where "sid = section_id_of st ancs"
  define k where "k = (sid, item_container_of st ancs)"
  define S1 where "S1 = secs_with st ancs b"
  have kn: "key_of st chns n = k" using ch by (simp add: key_of_def k_def sid_def)
  from inv have B1: "map snd (item_map b) = [0..<H]"
    and B2: "distinct (map fst (item_map b))"
    and B3: "distinct (map fst (sections_dict b))"
    and B3b: "\<forall>ks\<in>set (sections_dict b). section_id (snd ks) = fst ks"
    and B5: "mset (concat (map (\<lambda>ks. items (snd ks)) (sections_dict b))) = mset [0..<H]"
    and B6: "\<And>a. a < H \<Longrightarrow>
        (\<exists>s. map_of (sections_dict b) (fst (fst (item_map b ! a))) = Some s \<and> a \<in> set (items s)) \<and>
        container_role (item_heap b ! a) = role (st ! snd (fst (item_map b ! a))) \<and>
        map act_core (actions (item_heap b ! a)) =
          map (\<lambda>n. node_core (st ! n))
            (filter (\<lambda>n. qualifies st n \<and> key_of st chns n = fst (item_map b ! a)) ns)"
    and B7: "\<And>m. m \<in> set ns \<Longrightarrow> qualifies st m \<Longrightarrow> key_of st chns m \<in> fst ` set (item_map b)"
    and J: "mset (map act_core (concat (map actions (item_heap b)))) =
       mset (map (\<lambda>n. node_core (st ! n)) (filter (qualifies st) ns))"
    unfolding builder_inv_def H_def by blast+
  have len: "length (item_map b) = H" using arg_cong[OF B1, of length] by simp
  have knew: "k \<notin> fst ` set (item_map b)" using none by (simp add: map_of_None_iff k_def sid_def)
  note sw = secs_with_props[OF B3 B3b, where st=st and ancs=ancs, folded S1_def sid_def]
  have C1: "map snd (item_map b @ [(k, H)]) = [0..<length (item_heap b @ [it])]"
    using B1 by (simp add: H_def)
  have C2: "distinct (map fst (item_map b @ [(k, H)]))" using B2 knew by simp
  have C3: "distinct (map fst (append_item S1 sid H))" using sw(1) by simp
  have C3b: "\<forall>ks\<in>set (append_item S1 sid H). section_id (snd ks) = fst ks"
    using sw(2) by (rule set_append_item_id)
  have C5: "mset (concat (map (\<lambda>ks. items (snd ks)) (append_item S1 sid H)))
            = mset [0..<length (item_heap b @ [it])]"
    using mset_items_append_item[OF sw(1) sw(3), of H] sw(4) B5 by (simp add: H_def)
  have nokey: "filter (\<lambda>m. qualifies st m \<and> key_of st chns m = k) ns = []"
    using B7 knew by (auto simp: filter_empty_conv)
  have C6: "(\<exists>s. map_of (append_item S1 sid H) (fst (fst ((item_map b @ [(k, H)]) ! a))) = Some s
                 \<and> a \<in> set (items s)) \<and>
        container_role ((item_heap b @ [it]) ! a) = role (st ! snd (fst ((item_map b @ [(k, H)]) ! a))) \<and>
        map act_core (actions ((item_heap b @ [it]) ! a)) =
          map (\<lambda>n. node_core (st ! n))
            (filter (\<lambda>m. qualifies st m \<and> key_of st chns m = fst ((item_map b @ [(k, H)]) ! a)) (ns @ [n]))"
    if a: "a < length (item_heap b @ [it])" for a
  proof (cases "a < H")
    case True
    have ia: "(item_map b @ [(k, H)]) ! a = item_map b ! a" using True len by (simp add: nth_append)
    have ha: "(item_heap b @ [it]) ! a = item_heap b ! a" using True by (simp add: nth_append H_def)
    from B6[OF True] obtain s where s: "map_of (sections_dict b) (fst (fst (item_map b ! a))) = Some s"
      "a \<in> set (items s)" by blast
    have "map_of S1 (fst (fst (item_map b ! a))) = Some s" using sw(5)[OF s(1)] .
    then have 1: "\<exists>s'. map_of (append_item S1 sid H) (fst (fst (item_map b ! a))) = Some s'
                 \<and> a \<in> set (items s')"
      using s(2) by (auto simp: map_of_append_item)
    have "fst (item_map b ! a) \<in> fst ` set (item_map b)" using True len by simp
    then have "fst (item_map b ! a) \<noteq> k" using knew by auto
    then have 2: "filter (\<lambda>m. qualifies st m \<and> key_of st chns m = fst (item_map b ! a)) (ns @ [n])
             = filter (\<lambda>m. qualifies st m \<and> key_of st chns m = fst (item_map b ! a)) ns"
      using kn by simp
    show ?thesis unfolding ia ha 2 using 1 B6[OF True] by simp
  next
    case False
    then have aH: "a = H" using a by (simp add: H_def)
    have ia: "(item_map b @ [(k, H)]) ! a = (k, H)" using aH len by (simp add: nth_append)
    have ha: "(item_heap b @ [it]) ! a = it" using aH by (simp add: nth_append H_def)
    from sw(6) obtain s1 where "map_of S1 sid = Some s1" by blast
    then have 1: "\<exists>s'. map_of (append_item S1 sid H) sid = Some s' \<and> H \<in> set (items s')"
      by (auto simp: map_of_append_item)
    have 2: "filter (\<lambda>m. qualifies st m \<and> key_of st chns m = k) (ns @ [n]) = [n]"
      using nokey q kn by simp
    show ?thesis unfolding ia ha using 1 2 it aH by (simp add: k_def)
  qed
  have C7: "\<forall>m\<in>set (ns @ [n]). qualifies st m \<longrightarrow> key_of st chns m \<in> fst ` set (item_map b @ [(k, H)])"
    using B7 kn by auto
  have C8: "mset (map act_core (concat (map actions (item_heap b @ [it])))) =
       mset (map (\<lambda>n. node_core (st ! n)) (filter (qualifies st) (ns @ [n])))"
    using J q it(2) by simp
  show ?thesis
    unfolding builder_inv_def sid_def[symmetric] k_def[symmetric] S1_def[symmetric] H_def[symmetric]
    using C1 C2 C3 C3b C5 C6 C7 C8 by (simp add: H_def)
qed

lemma builder_inv_old:
  assumes inv: "builder_inv st chns ns b" and q: "qualifies st n" and ch: "chns n = Some ancs"
    and some: "map_of (item_map b) (section_id_of st ancs, item_container_of st ancs) = Some a"
  shows "a < length (item_heap b) \<and> builder_inv st chns (ns @ [n])
           (b\<lparr>sections_dict := secs_with st ancs b,
              item_heap := (item_heap b)[a := (item_heap b ! a)
                 \<lparr>actions := actions (item_heap b ! a) @ [action_of (st ! n) aid]\<rparr>]\<rparr>)"
proof -
  define H where "H = length (item_heap b)"
  define sid where "sid = section_id_of st ancs"
  define k where "k = (sid, item_container_of st ancs)"
  define S1 where "S1 = secs_with st ancs b"
  define heap' where "heap' = (item_heap b)[a := (item_heap b ! a)
                 \<lparr>actions := actions (item_heap b ! a) @ [action_of (st ! n) aid]\<rparr>]"
  have kn: "key_of st chns n = k" using ch by (simp add: key_of_def k_def sid_def)
  from inv have B1: "map snd (item_map b) = [0..<H]"
    and B2: "distinct (map fst (item_map b))"
    and B3: "distinct (map fst (sections_dict b))"
    and B3b: "\<forall>ks\<in>set (sections_dict b). section_id (snd ks) = fst ks"
    and B5: "mset (concat (map (\<lambda>ks. items (snd ks)) (sections_dict b))) = mset [0..<H]"
    and B6: "\<And>a. a < H \<Longrightarrow>
        (\<exists>s. map_of (sections_dict b) (fst (fst (item_map b ! a))) = Some s \<and> a \<in> set (items s)) \<and>
        container_role (item_heap b ! a) = role (st ! snd (fst (item_map b ! a))) \<and>
        map act_core (actions (item_heap b ! a)) =
          map (\<lambda>n. node_core (st ! n))
            (filter (\<lambda>n. qualifies st n \<and> key_of st chns n = fst (item_map b ! a)) ns)"
    and B7: "\<And>m. m \<in> set ns \<Longrightarrow> qualifies st m \<Longrightarrow> key_of st chns m \<in> fst ` set (item_map b)"
    and J: "mset (map act_core (concat (map actions (item_heap b)))) =
       mset (map (\<lambda>n. node_core (st ! n)) (filter (qualifies st) ns))"
    unfolding builder_inv_def H_def by blast+
  have len: "length (item_map b) = H" using arg_cong[OF B1, of length] by simp
  have B1': "map snd (item_map b) = [0..<length (item_map b)]" using B1 len by simp
  have ak: "a < H" "fst (item_map b ! a) = k"
    using some map_of_index[OF B1' B2, of k a] len by (simp_all add: k_def sid_def)
  have kin: "k \<in> fst ` set (item_map b)" using ak len by (metis nth_mem imageI)
  have len': "length heap' = H" by (simp add: heap'_def H_def)
  note sw = secs_with_props[OF B3 B3b, where st=st and ancs=ancs, folded S1_def sid_def]
  have C1: "map snd (item_map b) = [0..<length heap']" using B1 len' by simp
  have C5: "mset (concat (map (\<lambda>ks. items (snd ks)) S1)) = mset [0..<length heap']"
    using sw(4) B5 len' by simp
  have C6: "(\<exists>s. map_of S1 (fst (fst (item_map b ! a'))) = Some s \<and> a' \<in> set (items s)) \<and>
        container_role (heap' ! a') = role (st ! snd (fst (item_map b ! a'))) \<and>
        map act_core (actions (heap' ! a')) =
          map (\<lambda>n. node_core (st ! n))
            (filter (\<lambda>m. qualifies st m \<and> key_of st chns m = fst (item_map b ! a')) (ns @ [n]))"
    if a': "a' < length heap'" for a'
  proof -
    have a'H: "a' < H" using a' len' by simp
    from B6[OF a'H] obtain s where s: "map_of (sections_dict b) (fst (fst (item_map b ! a'))) = Some s"
      "a' \<in> set (items s)" by blast
    have 1: "\<exists>s. map_of S1 (fst (fst (item_map b ! a'))) = Some s \<and> a' \<in> set (items s)"
      using sw(5)[OF s(1)] s(2) by blast
    have 2: "container_role (heap' ! a') = role (st ! snd (fst (item_map b ! a')))"
      using B6[OF a'H] a'H by (cases "a' = a") (simp_all add: heap'_def H_def)
    have 3: "map act_core (actions (heap' ! a')) =
          map (\<lambda>n. node_core (st ! n))
            (filter (\<lambda>m. qualifies st m \<and> key_of st chns m = fst (item_map b ! a')) (ns @ [n]))"
    proof (cases "a' = a")
      case True
      then show ?thesis using B6[OF a'H] ak kn q a'H by (simp add: heap'_def H_def)
    next
      case False
      have "map fst (item_map b) ! a' \<noteq> map fst (item_map b) ! a"
        using False B2 a'H ak(1) len by (simp add: nth_eq_iff_index_eq del: nth_map)
      then have "fst (item_map b ! a') \<noteq> k" using ak a'H len by simp
      then show ?thesis using B6[OF a'H] False kn by (simp add: heap'_def)
    qed
    show ?thesis using 1 2 3 by blast
  qed
  have C7: "\<forall>m\<in>set (ns @ [n]). qualifies st m \<longrightarrow> key_of st chns m \<in> fst ` set (item_map b)"
    using B7 kn kin by auto
  have C8: "mset (map act_core (concat (map actions heap'))) =
       mset (map (\<lambda>n. node_core (st ! n)) (filter (qualifies st) (ns @ [n])))"
    using mset_actions_update[of a "item_heap b" "action_of (st ! n) aid"] ak(1) J q
    by (simp add: heap'_def H_def)
  have "builder_inv st chns (ns @ [n]) (b\<lparr>sections_dict := S1, item_heap := heap'\<rparr>)"
    unfolding builder_inv_def
    using C1 B2 sw(1) sw(2) C5 C6 C7 C8 by simp
  then show ?thesis using ak(1) by (simp add: S1_def heap'_def H_def)
qed

lemma builder_inv_step:
  assumes inv: "builder_inv st chns ns b"
    and ok: "qualifies st n \<Longrightarrow> \<exists>ancs key. chns n = Some ancs \<and>
               first_salient_text st (item_container_of st ancs) 80 = Some key"
  shows "\<exists>b'. build_node st chns b n = Some (Inr b') \<and> builder_inv st chns (ns @ [n]) b'"
proof (cases "qualifies st n")
  case False
  have f1: "filter (\<lambda>m. qualifies st m \<and> P m) (ns @ [n]) = filter (\<lambda>m. qualifies st m \<and> P m) ns" for P
    using False by simp
  have f2: "filter (qualifies st) (ns @ [n]) = filter (qualifies st) ns" using False by simp
  have f3: "(\<forall>m\<in>set (ns @ [n]). qualifies st m \<longrightarrow> Q m) = (\<forall>m\<in>set ns. qualifies st m \<longrightarrow> Q m)" for Q
    using False by auto
  have "builder_inv st chns (ns @ [n]) b"
    using inv unfolding builder_inv_def f1 f2 f3 .
  then show ?thesis using build_node_skip[OF False] by simp
next
  case True
  from ok[OF True] obtain ancs key where a: "chns n = Some ancs"
    "first_salient_text st (item_container_of st ancs) 80 = Some key" by blast
  show ?thesis
  proof (cases "map_of (item_map b) (section_id_of st ancs, item_container_of st ancs)")
    case None
    from build_node_new[where st=st and n=n and chns=chns and ancs=ancs and key=key and b=b]
      True a None obtain it where it:
      "build_node st chns b n =
           Some (Inr \<lparr>sections_dict = append_item (secs_with st ancs b) (section_id_of st ancs)
                                       (length (item_heap b)),
                      item_map = item_map b @
                        [((section_id_of st ancs, item_container_of st ancs), length (item_heap b))],
                      item_heap = item_heap b @ [it]\<rparr>)"
      "container_role it = role (st ! item_container_of st ancs)"
      "actions it = [action_of (st ! n) (item_id it @ ''/a'' @ str_nat 0)]" by blast
    show ?thesis using builder_inv_new[OF inv True a(1) None it(2,3)] it(1) by simp
  next
    case (Some x)
    show ?thesis
      using builder_inv_old[OF inv True a(1) Some]
        build_node_old[where st=st and n=n and chns=chns and ancs=ancs and key=key and b=b and a=x]
        True a Some by simp
  qed
qed

lemma build_loop_inv:
  assumes "builder_inv st chns ds b"
    "\<forall>n\<in>set ns. qualifies st n \<longrightarrow> (\<exists>ancs key. chns n = Some ancs \<and>
               first_salient_text st (item_container_of st ancs) 80 = Some key)"
  shows "\<exists>b'. build_loop st chns b ns = Some (Inr b') \<and> builder_inv st chns (ds @ ns) b'"
  using assms
proof (induction ns arbitrary: ds b)
  case Nil
  then show ?case by simp
next
  case (Cons n ns)
  from builder_inv_step[OF Cons.prems(1), of n] Cons.prems(2)
  obtain b1 where b1: "build_node st chns b n = Some (Inr b1)" "builder_inv st chns (ds @ [n]) b1"
    by auto
  from Cons.IH[OF b1(2)] Cons.prems(2)
  obtain b' where "build_loop st chns b1 ns = Some (Inr b')" "builder_inv st chns ((ds @ [n]) @ ns) b'"
    by auto
  then show ?case using b1(1) by simp
qed

lemma builder_inv_init:
  "builder_inv st chns [] \<lparr>sections_dict = [], item_map = [], item_heap = []\<rparr>"
  by (simp add: builder_inv_def)

lemma parse_line_root_role:
  assumes "role (nodes ps ! 0) = ''root''" "nodes ps \<noteq> []" "parse_line ps line = Inr ps'"
  shows "role (nodes ps' ! 0) = ''root''"
proof -
  have upd: "role ((xs[i := x]) ! 0) = role (xs ! 0)" if "role x = role (xs ! i)" for xs i and x :: node
    using that by (cases "i < length xs") (auto simp: nth_list_update list_update_beyond)
  have push: "role ((add_child st p c @ [nd]) ! 0) = role (st ! 0)" if "st \<noteq> []" for st p c nd
    using that upd[of "(st ! p)\<lparr>children := children (st ! p) @ [c]\<rparr>" st p]
    by (simp add: add_child_def nth_append)
  show ?thesis
    using assms upd push[OF assms(2)]
    by (auto simp: parse_line_def Let_def split: option.splits if_splits prod.splits)
qed

lemma parse_lines_root_role:
  "parser_inv ps \<Longrightarrow> role (nodes ps ! 0) = ''root'' \<Longrightarrow> parse_lines ps ls = Inr ps' \<Longrightarrow>
   role (nodes ps' ! 0) = ''root''"
proof (induction ls arbitrary: ps)
  case Nil
  then show ?case by simp
next
  case (Cons l ls)
  from parse_line_inv[OF Cons.prems(1), of l] obtain ps1
    where 1: "parse_line ps l = Inr ps1" "parser_inv ps1" by blast
  have "nodes ps \<noteq> []" using Cons.prems(1) by (simp add: parser_inv_def Let_def)
  then have "role (nodes ps1 ! 0) = ''root''" using parse_line_root_role Cons.prems(2) 1(1) by blast
  then show ?case using Cons.IH[OF 1(2)] Cons.prems(3) 1(1) by simp
qed

lemma parsed_store_shape:
  assumes "parse_snapshot snapshot_text = Inr st"
  shows "st \<noteq> [] \<and> role (st ! root) = ''root'' \<and>
         (\<forall>p<length st. \<forall>c\<in>set (children (st ! p)). c < length st)"
proof -
  obtain ps where ps: "parse_lines \<lparr>nodes = [root_node], stack = [root]\<rparr> (splitlines snapshot_text) = Inr ps"
    "parser_inv ps"
    using parse_lines_inv[OF parser_inv_init, of "splitlines snapshot_text"] by blast
  have st: "st = nodes ps" using assms ps(1) by (simp add: parse_snapshot_def)
  have "role (nodes ps ! 0) = ''root''"
    using parse_lines_root_role[OF parser_inv_init _ ps(1)] by (simp add: root_node_def)
  then show ?thesis using ps(2) st by (simp add: parser_inv_def Let_def root_def)
qed

lemma ancestor_path_bound:
  "ancestor_path st a xs n \<Longrightarrow> \<forall>p<length st. \<forall>c\<in>set (children (st ! p)). c < length st \<Longrightarrow>
   a < length st \<Longrightarrow> set xs \<subseteq> {..<length st} \<and> n < length st"
proof (induction st a xs n rule: ancestor_path.induct)
  case (1 st a n)
  then show ?case by simp
next
  case (2 st a x xs n)
  then obtain c where c: "c \<in> set (children (st ! a))" "ancestor_path st c xs n" "x = a" by auto
  then have "c < length st" using "2.prems"(2,3) by blast
  then show ?case using "2.IH"[OF c(1,2) "2.prems"(2)] c(3) "2.prems"(3) by auto
qed

lemma ancestor_path_last:
  "ancestor_path st a xs n \<Longrightarrow> xs \<noteq> [] \<Longrightarrow> n \<in> set (children (st ! last xs))"
proof (induction st a xs n rule: ancestor_path.induct)
  case (1 st a n)
  then show ?case by simp
next
  case (2 st a x xs n)
  then obtain c where c: "c \<in> set (children (st ! a))" "ancestor_path st c xs n" "x = a" by auto
  show ?case
  proof (cases xs)
    case Nil
    then show ?thesis using c by simp
  next
    case (Cons y ys)
    then show ?thesis using "2.IH"[OF c(1,2)] by simp
  qed
qed

lemma ancestor_path_nonempty: "ancestor_path st a xs n \<Longrightarrow> n \<noteq> a \<Longrightarrow> xs \<noteq> []"
  by (cases xs) auto

lemma find_in_set: "find P xs = Some x \<Longrightarrow> x \<in> set xs"
  by (induction xs) (auto split: if_splits)

lemma find_rev_filter:
  "find P (rev xs) = (case filter P xs of [] \<Rightarrow> None | y # ys \<Rightarrow> Some (last (y # ys)))"
proof (induction xs rule: rev_induct)
  case Nil
  then show ?case by simp
next
  case (snoc x xs)
  show ?case
  proof (cases "P x")
    case True
    then show ?thesis by (cases "filter P xs") simp_all
  next
    case False
    then show ?thesis using snoc by simp
  qed
qed

lemma item_container_priority:
  "ancs \<noteq> [] \<Longrightarrow> item_container_of st ancs = priority_container st ancs"
  by (simp add: item_container_of_def priority_container_def nearest_item_container_def
      nearest_landmark_def nearest_with_def find_rev_filter split: list.splits)

lemma item_container_in:
  "item_container_of st ancs \<in> set ancs \<union> {root}"
  by (auto simp: item_container_of_def nearest_item_container_def nearest_landmark_def
      split: option.splits dest: find_in_set)

lemma first_salient_text_returns:
  "iter_nodes st c = Some ns \<Longrightarrow> \<exists>key. first_salient_text st c max_len = Some key"
  by (auto simp: first_salient_text_def split: option.splits)

lemma build_state_inv:
  "\<exists>st chns b. parse_snapshot snapshot_text = Inr st \<and> st \<noteq> [] \<and> role (st ! root) = ''root'' \<and>
     iter_nodes st root = Some [0..<length st] \<and>
     build_state snapshot_text = Some (Inr (st, chns, b)) \<and>
     builder_inv st chns [0..<length st] b \<and>
     (\<forall>n<length st. \<exists>ancs. chns n = Some ancs \<and> ancestor_path st root ancs n)"
proof -
  from parsed_store_walks[of snapshot_text] obtain st chns where
    st: "parse_snapshot snapshot_text = Inr st" "st \<noteq> []"
    and it: "iter_nodes st root = Some [0..<length st]"
    and sub: "\<And>i. i < length st \<Longrightarrow> \<exists>ns. iter_nodes st i = Some ns"
    and ch: "ancestors_with_context st root = Some (Inr chns)"
      "\<And>n. n < length st \<Longrightarrow> \<exists>b. chns n = Some b \<and> ancestor_path st root b n"
    by blast
  from parsed_store_shape[OF st(1)] have rr: "role (st ! root) = ''root''"
    and cb: "\<forall>p<length st. \<forall>c\<in>set (children (st ! p)). c < length st" by auto
  have r0: "root < length st" using st(2) by (simp add: root_def)
  have pre: "\<forall>n\<in>set [0..<length st]. qualifies st n \<longrightarrow> (\<exists>ancs key. chns n = Some ancs \<and>
               first_salient_text st (item_container_of st ancs) 80 = Some key)"
  proof (intro ballI impI)
    fix n assume "n \<in> set [0..<length st]"
    then have n: "n < length st" by simp
    from ch(2)[OF n] obtain ancs where a: "chns n = Some ancs" "ancestor_path st root ancs n" by blast
    have "set ancs \<subseteq> {..<length st}" using ancestor_path_bound[OF a(2) cb r0] by simp
    then have "item_container_of st ancs < length st"
      using item_container_in[of st ancs] r0 by auto
    from sub[OF this] first_salient_text_returns
    obtain key where "first_salient_text st (item_container_of st ancs) 80 = Some key" by blast
    then show "\<exists>ancs key. chns n = Some ancs \<and>
               first_salient_text st (item_container_of st ancs) 80 = Some key" using a(1) by blast
  qed
  from build_loop_inv[OF builder_inv_init pre] obtain b where
    b: "build_loop st chns \<lparr>sections_dict = [], item_map = [], item_heap = []\<rparr> [0..<length st] = Some (Inr b)"
    "builder_inv st chns [0..<length st] b" by auto
  have "build_state snapshot_text = Some (Inr (st, chns, b))"
    using st(1) ch(1) it b(1) by (simp add: build_state_def)
  then show ?thesis using st rr it b(2) ch(2) by blast
qed

subsection \<open>The claims about the context model\<close>

lemma mset_concat_map_cong:
  "mset xs = mset ys \<Longrightarrow> mset (concat (map f xs)) = mset (concat (map f ys))"
proof -
  assume a: "mset xs = mset ys"
  have "mset (concat (map f zs)) = (\<Sum>z\<in>#mset zs. mset (f z))" for zs
    by (induction zs) auto
  then show ?thesis using a by simp
qed

lemma sections_of_builder:
  assumes "build_state snapshot_text = Some (Inr (st, chns, b))"
  shows "build_context_model snapshot_text =
     Some (Inr \<lparr>page = Some [], task = None,
                sections = map (\<lambda>(k, s). resolve_section (item_heap b) s) (sections_dict b)\<rparr>)"
  using assms by (simp add: build_context_model_def)

text \<open>
  Claim C1. For every input text the parser returns a store whose addresses are exactly
  the nodes of the parsed tree: every address is reached from the root along the lists
  \<^verbatim>\<open>children\<close>, and \<^verbatim>\<open>iter_nodes(root)\<close> lists every address once, in order.
  \<^const>\<open>build_context_model\<close> returns a model, the final state of its loop with every
  item address replaced by its item. Every item is listed once over all sections, the
  keys of the items are distinct, and the actions of an item are exactly the nodes with
  an interactive role and a non-empty reference that have the item's key, in order; every
  such node has its key among the items. So every such node has exactly one action, in
  the one item of its key, in one section, and a node without a reference or with another
  role has none: the actions of all items of all sections of the model are exactly those
  nodes, each once. The ids of the sections are distinct.
\<close>

theorem build_context_model_actions:
  "\<exists>st chns b m. parse_snapshot snapshot_text = Inr st \<and> st \<noteq> [] \<and>
     iter_nodes st root = Some [0..<length st] \<and>
     (\<forall>n<length st. \<exists>ancs. ancestor_path st root ancs n) \<and>
     build_state snapshot_text = Some (Inr (st, chns, b)) \<and>
     build_context_model snapshot_text = Some (Inr m) \<and>
     sections m = map (\<lambda>(k, s). resolve_section (item_heap b) s) (sections_dict b) \<and>
     mset (map act_core (concat (map actions (concat (map items (sections m))))))
       = mset (map (\<lambda>n. node_core (st ! n)) (filter (qualifies st) [0..<length st])) \<and>
     distinct (map section_id (sections m)) \<and>
     mset (concat (map (\<lambda>ks. items (snd ks)) (sections_dict b))) = mset [0..<length (item_heap b)] \<and>
     length (item_map b) = length (item_heap b) \<and> distinct (map fst (item_map b)) \<and>
     (\<forall>a<length (item_heap b).
        map act_core (actions (item_heap b ! a)) =
          map (\<lambda>n. node_core (st ! n))
            (filter (\<lambda>n. qualifies st n \<and> key_of st chns n = fst (item_map b ! a)) [0..<length st])) \<and>
     (\<forall>n<length st. qualifies st n \<longrightarrow> key_of st chns n \<in> fst ` set (item_map b))"
proof -
  from build_state_inv[of snapshot_text] obtain st chns b where
    p: "parse_snapshot snapshot_text = Inr st" "st \<noteq> []" "iter_nodes st root = Some [0..<length st]"
    and bs: "build_state snapshot_text = Some (Inr (st, chns, b))"
    and inv: "builder_inv st chns [0..<length st] b"
    and ch: "\<forall>n<length st. \<exists>ancs. chns n = Some ancs \<and> ancestor_path st root ancs n" by blast
  define m where "m = \<lparr>page = Some [], task = None,
                sections = map (\<lambda>(k, s). resolve_section (item_heap b) s) (sections_dict b)\<rparr>"
  have bm: "build_context_model snapshot_text = Some (Inr m)"
    using sections_of_builder[OF bs] by (simp add: m_def)
  have sm: "sections m = map (\<lambda>(k, s). resolve_section (item_heap b) s) (sections_dict b)"
    by (simp add: m_def)
  from inv have B1: "map snd (item_map b) = [0..<length (item_heap b)]"
    and B2: "distinct (map fst (item_map b))"
    and B3: "distinct (map fst (sections_dict b))"
    and B3b: "\<forall>ks\<in>set (sections_dict b). section_id (snd ks) = fst ks"
    and B5: "mset (concat (map (\<lambda>ks. items (snd ks)) (sections_dict b))) = mset [0..<length (item_heap b)]"
    and B6: "\<And>a. a < length (item_heap b) \<Longrightarrow>
        map act_core (actions (item_heap b ! a)) =
          map (\<lambda>n. node_core (st ! n))
            (filter (\<lambda>n. qualifies st n \<and> key_of st chns n = fst (item_map b ! a)) [0..<length st])"
    and B7: "\<And>n. n \<in> set [0..<length st] \<Longrightarrow> qualifies st n \<Longrightarrow>
               key_of st chns n \<in> fst ` set (item_map b)"
    and J: "mset (map act_core (concat (map actions (item_heap b)))) =
       mset (map (\<lambda>n. node_core (st ! n)) (filter (qualifies st) [0..<length st]))"
    unfolding builder_inv_def by blast+
  have len: "length (item_map b) = length (item_heap b)" using arg_cong[OF B1, of length] by simp
  have "concat (map items (sections m))
        = map (\<lambda>a. item_heap b ! a) (concat (map (\<lambda>ks. items (snd ks)) (sections_dict b)))"
    by (simp add: m_def map_concat comp_def resolve_section_def case_prod_unfold)
  then have "mset (concat (map items (sections m)))
             = image_mset (\<lambda>a. item_heap b ! a) (mset [0..<length (item_heap b)])"
    using B5 by (metis mset_map)
  also have "\<dots> = mset (map (\<lambda>a. item_heap b ! a) [0..<length (item_heap b)])" by simp
  also have "\<dots> = mset (item_heap b)" by (simp only: map_nth)
  finally have "mset (concat (map actions (concat (map items (sections m)))))
                = mset (concat (map actions (item_heap b)))"
    by (rule mset_concat_map_cong)
  then have 1: "mset (map act_core (concat (map actions (concat (map items (sections m))))))
       = mset (map (\<lambda>n. node_core (st ! n)) (filter (qualifies st) [0..<length st]))"
    using J by (metis mset_map)
  have "map section_id (sections m) = map fst (sections_dict b)"
    using B3b by (auto simp: m_def resolve_section_def case_prod_unfold)
  then have 2: "distinct (map section_id (sections m))" using B3 by simp
  have 3: "\<forall>n<length st. \<exists>ancs. ancestor_path st root ancs n" using ch by blast
  have 4: "\<forall>a<length (item_heap b).
        map act_core (actions (item_heap b ! a)) =
          map (\<lambda>n. node_core (st ! n))
            (filter (\<lambda>n. qualifies st n \<and> key_of st chns n = fst (item_map b ! a)) [0..<length st])"
    using B6 by blast
  have 5: "\<forall>n<length st. qualifies st n \<longrightarrow> key_of st chns n \<in> fst ` set (item_map b)"
    using B7 by simp
  have "parse_snapshot snapshot_text = Inr st \<and> st \<noteq> [] \<and>
     iter_nodes st root = Some [0..<length st] \<and>
     (\<forall>n<length st. \<exists>ancs. ancestor_path st root ancs n) \<and>
     build_state snapshot_text = Some (Inr (st, chns, b)) \<and>
     build_context_model snapshot_text = Some (Inr m) \<and>
     sections m = map (\<lambda>(k, s). resolve_section (item_heap b) s) (sections_dict b) \<and>
     mset (map act_core (concat (map actions (concat (map items (sections m))))))
       = mset (map (\<lambda>n. node_core (st ! n)) (filter (qualifies st) [0..<length st])) \<and>
     distinct (map section_id (sections m)) \<and>
     mset (concat (map (\<lambda>ks. items (snd ks)) (sections_dict b))) = mset [0..<length (item_heap b)] \<and>
     length (item_map b) = length (item_heap b) \<and> distinct (map fst (item_map b)) \<and>
     (\<forall>a<length (item_heap b).
        map act_core (actions (item_heap b ! a)) =
          map (\<lambda>n. node_core (st ! n))
            (filter (\<lambda>n. qualifies st n \<and> key_of st chns n = fst (item_map b ! a)) [0..<length st])) \<and>
     (\<forall>n<length st. qualifies st n \<longrightarrow> key_of st chns n \<in> fst ` set (item_map b))"
    using p bs bm sm 1 2 3 B5 len B2 4 5 by (intro conjI)
  then show ?thesis by (intro exI[of _ st] exI[of _ chns] exI[of _ b] exI[of _ m])
qed

theorem build_context_model_actions_witness:
  "\<exists>m. build_context_model ''- main\<newline>  - button \"Go\" [ref=e1]\<newline>  - link \"Docs\"'' = Some (Inr m) \<and>
     map act_core (concat (map actions (concat (map items (sections m)))))
       = [(''button'', ''Go'', ''e1'', False, None)]"
proof -
  let ?T = "''- main\<newline>  - button \"Go\" [ref=e1]\<newline>  - link \"Docs\"''"
  have e: "case parse_snapshot ?T of Inl _ \<Rightarrow> False
           | Inr st \<Rightarrow> length st = 4 \<and> \<not> qualifies st 0 \<and> \<not> qualifies st 1 \<and> qualifies st 2 \<and>
               \<not> qualifies st 3 \<and> node_core (st ! 2) = (''button'', ''Go'', ''e1'', False, None)"
    by code_simp
  from build_context_model_actions[of ?T] obtain st m where
    p: "parse_snapshot ?T = Inr st" and bm: "build_context_model ?T = Some (Inr m)"
    and h: "mset (map act_core (concat (map actions (concat (map items (sections m))))))
       = mset (map (\<lambda>n. node_core (st ! n)) (filter (qualifies st) [0..<length st]))"
    by (elim exE conjE) (rule that, assumption+)
  from e p have f: "length st = 4" "\<not> qualifies st 0" "\<not> qualifies st 1" "qualifies st 2"
    "\<not> qualifies st 3" "node_core (st ! 2) = (''button'', ''Go'', ''e1'', False, None)"
    by simp_all
  have u: "[0..<length st] = [0, 1, 2, 3]" using f(1) by (simp add: upt_rec)
  have "map (\<lambda>n. node_core (st ! n)) (filter (qualifies st) [0..<length st])
        = [(''button'', ''Go'', ''e1'', False, None)]"
    unfolding u using f by simp
  with h have "mset (map act_core (concat (map actions (concat (map items (sections m))))))
               = mset [(''button'', ''Go'', ''e1'', False, None)]" by simp
  then have "map act_core (concat (map actions (concat (map items (sections m)))))
               = [(''button'', ''Go'', ''e1'', False, None)]"
    by (cases "map act_core (concat (map actions (concat (map items (sections m)))))") auto
  then show ?thesis using bm by (intro exI[of _ m] conjI)
qed

text \<open>
  Claim C2 names, as the third choice of the item container, the most distant ancestor
  of the node, the top-level child of the root. The code takes \<^verbatim>\<open>ancs[-1]\<close>, the last
  node of the chain \<^verbatim>\<open>root..parent\<close>, which is the nearest ancestor: below, the button's
  item has the container role of its parent \<^verbatim>\<open>generic\<close>, not of the top-level node
  \<^verbatim>\<open>banner\<close> nor of the root.
\<close>

theorem item_container_counterexample:
  "map_sum id (map role) (parse_snapshot ''- banner\<newline>  - generic\<newline>    - button \"Go\" [ref=e1]'')
     = Inr [''root'', ''banner'', ''generic'', ''button''] \<and>
   build_context_model ''- banner\<newline>  - generic\<newline>    - button \"Go\" [ref=e1]''
     = Some (Inr \<lparr>page = Some [], task = None,
          sections =
            [\<lparr>section_id = ''s_unknown_noheading'', landmark = ''unknown'', heading_path = [],
              items =
                [\<lparr>item_id = ''s_unknown_noheading/i0'', item_key = ''generic:no-ref'',
                  container_role = ''generic'',
                  actions =
                    [\<lparr>action_id = ''s_unknown_noheading/i0/a0'', a_role = ''button'',
                      a_name = ''Go'', a_ref = ''e1'', a_disabled = False, a_url = None\<rparr>]\<rparr>]\<rparr>]\<rparr>)"
  by code_simp

text \<open>
  Claim C2, amended. For every interactive node with a reference, the chain recorded for
  it is the list of its ancestors from the root down to its parent, and its action is in
  the item filed under its section id and the container chosen by the priority chain:
  the nearest ancestor with a role among row, listitem and group; else the nearest
  ancestor with a role among main, navigation and contentinfo; else the nearest ancestor
  of all, its parent. (The root itself would be the choice for an empty chain, which no
  such node has.) The item records the role of that container.
\<close>

theorem build_context_model_priority_chain:
  "\<exists>st chns b. build_state snapshot_text = Some (Inr (st, chns, b)) \<and>
     (\<forall>n<length st. qualifies st n \<longrightarrow>
        (\<exists>ancs a. chns n = Some ancs \<and> ancestor_path st root ancs n \<and> ancs \<noteq> [] \<and>
           n \<in> set (children (st ! last ancs)) \<and>
           map_of (item_map b) (section_id_of st ancs, priority_container st ancs) = Some a \<and>
           a < length (item_heap b) \<and>
           container_role (item_heap b ! a) = role (st ! priority_container st ancs) \<and>
           node_core (st ! n) \<in> act_core ` set (actions (item_heap b ! a))))"
proof -
  from build_state_inv[of snapshot_text] obtain st chns b where
    rr: "role (st ! root) = ''root''"
    and bs: "build_state snapshot_text = Some (Inr (st, chns, b))"
    and inv: "builder_inv st chns [0..<length st] b"
    and ch: "\<And>n. n < length st \<Longrightarrow> \<exists>ancs. chns n = Some ancs \<and> ancestor_path st root ancs n"
    by blast
  from inv have B1: "map snd (item_map b) = [0..<length (item_heap b)]"
    and B2: "distinct (map fst (item_map b))"
    and B6: "\<And>a. a < length (item_heap b) \<Longrightarrow>
        container_role (item_heap b ! a) = role (st ! snd (fst (item_map b ! a))) \<and>
        map act_core (actions (item_heap b ! a)) =
          map (\<lambda>n. node_core (st ! n))
            (filter (\<lambda>n. qualifies st n \<and> key_of st chns n = fst (item_map b ! a)) [0..<length st])"
    and B7: "\<And>m. m \<in> set [0..<length st] \<Longrightarrow> qualifies st m \<Longrightarrow>
               key_of st chns m \<in> fst ` set (item_map b)"
    unfolding builder_inv_def by blast+
  have len: "length (item_map b) = length (item_heap b)" using arg_cong[OF B1, of length] by simp
  have B1': "map snd (item_map b) = [0..<length (item_map b)]" using B1 len by simp
  have "\<exists>ancs a. chns n = Some ancs \<and> ancestor_path st root ancs n \<and> ancs \<noteq> [] \<and>
           n \<in> set (children (st ! last ancs)) \<and>
           map_of (item_map b) (section_id_of st ancs, priority_container st ancs) = Some a \<and>
           a < length (item_heap b) \<and>
           container_role (item_heap b ! a) = role (st ! priority_container st ancs) \<and>
           node_core (st ! n) \<in> act_core ` set (actions (item_heap b ! a))"
    if n: "n < length st" and q: "qualifies st n" for n
  proof -
    from ch[OF n] obtain ancs where a: "chns n = Some ancs" "ancestor_path st root ancs n" by blast
    have "n \<noteq> root" using q rr by (auto simp: qualifies_def INTERACTIVE_ROLES_def)
    then have ne: "ancs \<noteq> []" using ancestor_path_nonempty[OF a(2)] by simp
    have par: "n \<in> set (children (st ! last ancs))" using ancestor_path_last[OF a(2) ne] .
    have k: "key_of st chns n = (section_id_of st ancs, priority_container st ancs)"
      using a(1) item_container_priority[OF ne] by (simp add: key_of_def)
    from B7[of n] n q have "key_of st chns n \<in> fst ` set (item_map b)" by simp
    then obtain x where "map_of (item_map b) (key_of st chns n) = Some x"
      by (cases "map_of (item_map b) (key_of st chns n)") (auto simp: map_of_None_iff)
    then have x: "map_of (item_map b) (key_of st chns n) = Some x" "x < length (item_heap b)"
      "fst (item_map b ! x) = key_of st chns n"
      using map_of_index[OF B1' B2, of "key_of st chns n" x] len by simp_all
    have "n \<in> set (filter (\<lambda>m. qualifies st m \<and> key_of st chns m = fst (item_map b ! x)) [0..<length st])"
      using n q x(3) by simp
    then have "node_core (st ! n) \<in> set (map act_core (actions (item_heap b ! x)))"
      using B6[OF x(2)] by (metis (no_types, lifting) imageI list.set_map)
    then have "node_core (st ! n) \<in> act_core ` set (actions (item_heap b ! x))" by simp
    moreover have "container_role (item_heap b ! x) = role (st ! priority_container st ancs)"
      using B6[OF x(2)] x(3) k by simp
    ultimately show ?thesis using a ne par x(1,2) k by auto
  qed
  then show ?thesis using bs by blast
qed

theorem build_context_model_priority_chain_witness:
  "\<exists>st chns b a. build_state ''- banner\<newline>  - generic\<newline>    - button \"Go\" [ref=e1]''
       = Some (Inr (st, chns, b)) \<and> 3 < length st \<and> qualifies st 3 \<and>
     map_of (item_map b) (''s_unknown_noheading'', 2) = Some a \<and>
     container_role (item_heap b ! a) = ''generic''"
proof -
  let ?T = "''- banner\<newline>  - generic\<newline>    - button \"Go\" [ref=e1]''"
  have e: "case build_state ?T of
             Some (Inr (st, chns, b)) \<Rightarrow>
               3 < length st \<and> qualifies st 3 \<and> chns 3 = Some [0, 1, 2] \<and>
               section_id_of st [0, 1, 2] = ''s_unknown_noheading'' \<and>
               priority_container st [0, 1, 2] = 2 \<and> role (st ! 2) = ''generic''
           | _ \<Rightarrow> False"
    by code_simp
  from build_context_model_priority_chain[of ?T] obtain st chns b where
    bs: "build_state ?T = Some (Inr (st, chns, b))"
    and h: "\<forall>n<length st. qualifies st n \<longrightarrow>
        (\<exists>ancs a. chns n = Some ancs \<and> ancestor_path st root ancs n \<and> ancs \<noteq> [] \<and>
           n \<in> set (children (st ! last ancs)) \<and>
           map_of (item_map b) (section_id_of st ancs, priority_container st ancs) = Some a \<and>
           a < length (item_heap b) \<and>
           container_role (item_heap b ! a) = role (st ! priority_container st ancs) \<and>
           node_core (st ! n) \<in> act_core ` set (actions (item_heap b ! a)))"
    by blast
  from e bs have f: "3 < length st" "qualifies st 3" "chns 3 = Some [0, 1, 2]"
    "section_id_of st [0, 1, 2] = ''s_unknown_noheading''"
    "priority_container st [0, 1, 2] = 2" "role (st ! 2) = ''generic''" by simp_all
  from h f(1,2) obtain ancs a where
    "chns 3 = Some ancs"
    "map_of (item_map b) (section_id_of st ancs, priority_container st ancs) = Some a"
    "container_role (item_heap b ! a) = role (st ! priority_container st ancs)" by blast
  with f bs show ?thesis by auto
qed

text \<open>
  Claim C3 says one item per container node. The key of an item is the pair of the
  section id and the container, so a container whose interactive descendants fall into
  two sections gets two items: below, the group (address 1) is the container of both
  buttons, one in the section of the landmark \<^verbatim>\<open>main\<close>, the other in the section without
  landmark.
\<close>

theorem same_container_two_items_counterexample:
  "snapshot_item_map ''- group\<newline>  - main\<newline>    - button \"A\" [ref=e1]\<newline>  - button \"B\" [ref=e2]''
     = Some (Inr [((''s_main_noheading'', 1), 0), ((''s_unknown_noheading'', 1), 1)]) \<and>
   build_context_model ''- group\<newline>  - main\<newline>    - button \"A\" [ref=e1]\<newline>  - button \"B\" [ref=e2]''
     = Some (Inr \<lparr>page = Some [], task = None,
          sections =
            [\<lparr>section_id = ''s_main_noheading'', landmark = ''main'', heading_path = [],
              items =
                [\<lparr>item_id = ''s_main_noheading/i0'', item_key = ''group:no-ref'',
                  container_role = ''group'',
                  actions =
                    [\<lparr>action_id = ''s_main_noheading/i0/a0'', a_role = ''button'',
                      a_name = ''A'', a_ref = ''e1'', a_disabled = False, a_url = None\<rparr>]\<rparr>]\<rparr>,
             \<lparr>section_id = ''s_unknown_noheading'', landmark = ''unknown'', heading_path = [],
              items =
                [\<lparr>item_id = ''s_unknown_noheading/i1'', item_key = ''group:no-ref'',
                  container_role = ''group'',
                  actions =
                    [\<lparr>action_id = ''s_unknown_noheading/i1/a0'', a_role = ''button'',
                      a_name = ''B'', a_ref = ''e2'', a_disabled = False, a_url = None\<rparr>]\<rparr>]\<rparr>]\<rparr>)"
  by code_simp

text \<open>
  Claim C3, amended. For any two interactive nodes with references that have the same
  section id and the same item container, the actions are in the same single item: there
  is one item per pair of section id and container (the keys of \<^verbatim>\<open>item_map\<close> are
  distinct), it is listed once, in the section of that id, and its actions are exactly
  those of the nodes with that pair, in document order, whatever their paths to the
  container.
\<close>

theorem build_context_model_same_item:
  "\<exists>st chns b m. build_state snapshot_text = Some (Inr (st, chns, b)) \<and>
     build_context_model snapshot_text = Some (Inr m) \<and>
     distinct (map fst (item_map b)) \<and>
     (\<forall>n<length st. qualifies st n \<longrightarrow>
        (\<exists>a. map_of (item_map b) (key_of st chns n) = Some a \<and> a < length (item_heap b) \<and>
           map act_core (actions (item_heap b ! a)) =
             map (\<lambda>n'. node_core (st ! n'))
               (filter (\<lambda>n'. qualifies st n' \<and> key_of st chns n' = key_of st chns n) [0..<length st]) \<and>
           count_list (concat (map (\<lambda>ks. items (snd ks)) (sections_dict b))) a = 1 \<and>
           (\<exists>sec\<in>set (sections m). section_id sec = fst (key_of st chns n) \<and>
              item_heap b ! a \<in> set (items sec))))"
proof -
  from build_state_inv[of snapshot_text] obtain st chns b where
    bs: "build_state snapshot_text = Some (Inr (st, chns, b))"
    and inv: "builder_inv st chns [0..<length st] b" by blast
  define m where "m = \<lparr>page = Some [], task = None,
                sections = map (\<lambda>(k, s). resolve_section (item_heap b) s) (sections_dict b)\<rparr>"
  have bm: "build_context_model snapshot_text = Some (Inr m)"
    using sections_of_builder[OF bs] by (simp add: m_def)
  from inv have B1: "map snd (item_map b) = [0..<length (item_heap b)]"
    and B2: "distinct (map fst (item_map b))"
    and B3: "distinct (map fst (sections_dict b))"
    and B3b: "\<forall>ks\<in>set (sections_dict b). section_id (snd ks) = fst ks"
    and B5: "mset (concat (map (\<lambda>ks. items (snd ks)) (sections_dict b))) = mset [0..<length (item_heap b)]"
    and B6: "\<And>a. a < length (item_heap b) \<Longrightarrow>
        (\<exists>s. map_of (sections_dict b) (fst (fst (item_map b ! a))) = Some s \<and> a \<in> set (items s)) \<and>
        map act_core (actions (item_heap b ! a)) =
          map (\<lambda>n. node_core (st ! n))
            (filter (\<lambda>n. qualifies st n \<and> key_of st chns n = fst (item_map b ! a)) [0..<length st])"
    and B7: "\<And>m. m \<in> set [0..<length st] \<Longrightarrow> qualifies st m \<Longrightarrow>
               key_of st chns m \<in> fst ` set (item_map b)"
    unfolding builder_inv_def by blast+
  have len: "length (item_map b) = length (item_heap b)" using arg_cong[OF B1, of length] by simp
  have B1': "map snd (item_map b) = [0..<length (item_map b)]" using B1 len by simp
  have "\<exists>a. map_of (item_map b) (key_of st chns n) = Some a \<and> a < length (item_heap b) \<and>
           map act_core (actions (item_heap b ! a)) =
             map (\<lambda>n'. node_core (st ! n'))
               (filter (\<lambda>n'. qualifies st n' \<and> key_of st chns n' = key_of st chns n) [0..<length st]) \<and>
           count_list (concat (map (\<lambda>ks. items (snd ks)) (sections_dict b))) a = 1 \<and>
           (\<exists>sec\<in>set (sections m). section_id sec = fst (key_of st chns n) \<and>
              item_heap b ! a \<in> set (items sec))"
    if n: "n < length st" and q: "qualifies st n" for n
  proof -
    from B7[of n] n q have "key_of st chns n \<in> fst ` set (item_map b)" by simp
    then obtain x where "map_of (item_map b) (key_of st chns n) = Some x"
      by (cases "map_of (item_map b) (key_of st chns n)") (auto simp: map_of_None_iff)
    then have x: "map_of (item_map b) (key_of st chns n) = Some x" "x < length (item_heap b)"
      "fst (item_map b ! x) = key_of st chns n"
      using map_of_index[OF B1' B2, of "key_of st chns n" x] len by simp_all
    from B6[OF x(2)] x(3) obtain s where s:
      "map_of (sections_dict b) (fst (key_of st chns n)) = Some s" "x \<in> set (items s)" by auto
    have sin: "(fst (key_of st chns n), s) \<in> set (sections_dict b)" using s(1) by (rule map_of_SomeD)
    then have "section_id s = fst (key_of st chns n)" using B3b by auto
    then have "resolve_section (item_heap b) s \<in> set (sections m) \<and>
          section_id (resolve_section (item_heap b) s) = fst (key_of st chns n) \<and>
          item_heap b ! x \<in> set (items (resolve_section (item_heap b) s))"
      using sin s(2) by (force simp: m_def resolve_section_def)
    then have 1: "\<exists>sec\<in>set (sections m). section_id sec = fst (key_of st chns n) \<and>
              item_heap b ! x \<in> set (items sec)" by blast
    have "count (mset (concat (map (\<lambda>ks. items (snd ks)) (sections_dict b)))) x
          = count (mset [0..<length (item_heap b)]) x" using B5 by simp
    moreover have "count (mset [0..<length (item_heap b)]) x = 1" using x(2) by simp
    ultimately have 2: "count_list (concat (map (\<lambda>ks. items (snd ks)) (sections_dict b))) x = 1"
      by (simp only: count_mset)
    show ?thesis using x(1,2) B6[OF x(2)] x(3) 1 2 by auto
  qed
  then show ?thesis using bs bm B2 by blast
qed

theorem build_context_model_same_item_witness:
  "\<exists>st chns b a. build_state ''- main\<newline>  - listitem\<newline>    - button \"A\" [ref=e1]\<newline>    - link \"B\" [ref=e2]''
       = Some (Inr (st, chns, b)) \<and> 4 < length st \<and> qualifies st 3 \<and> qualifies st 4 \<and>
     key_of st chns 3 = key_of st chns 4 \<and>
     map_of (item_map b) (key_of st chns 3) = Some a \<and>
     map act_core (actions (item_heap b ! a)) = [node_core (st ! 3), node_core (st ! 4)]"
proof -
  let ?T = "''- main\<newline>  - listitem\<newline>    - button \"A\" [ref=e1]\<newline>    - link \"B\" [ref=e2]''"
  have e: "case build_state ?T of
             Some (Inr (st, chns, b)) \<Rightarrow>
               length st = 5 \<and> \<not> qualifies st 0 \<and> \<not> qualifies st 1 \<and> \<not> qualifies st 2 \<and>
               qualifies st 3 \<and> qualifies st 4 \<and> key_of st chns 3 = key_of st chns 4
           | _ \<Rightarrow> False"
    by code_simp
  from build_context_model_same_item[of ?T] obtain st chns b where
    bs: "build_state ?T = Some (Inr (st, chns, b))"
    and h: "\<forall>n<length st. qualifies st n \<longrightarrow>
        (\<exists>a. map_of (item_map b) (key_of st chns n) = Some a \<and> a < length (item_heap b) \<and>
           map act_core (actions (item_heap b ! a)) =
             map (\<lambda>n'. node_core (st ! n'))
               (filter (\<lambda>n'. qualifies st n' \<and> key_of st chns n' = key_of st chns n) [0..<length st]))"
    by blast
  from e bs have f: "length st = 5" "\<not> qualifies st 0" "\<not> qualifies st 1" "\<not> qualifies st 2"
    "qualifies st 3" "qualifies st 4" "key_of st chns 3 = key_of st chns 4"
    by simp_all
  have u: "[0..<length st] = [0, 1, 2, 3, 4]" using f(1) by (simp add: upt_rec)
  have fl: "filter (\<lambda>n'. qualifies st n' \<and> key_of st chns n' = key_of st chns 3) [0..<length st] = [3, 4]"
    unfolding u using f by simp
  have l3: "3 < length st" using f(1) by simp
  from h[rule_format, OF l3 f(5)] obtain a where
    "map_of (item_map b) (key_of st chns 3) = Some a"
    "map act_core (actions (item_heap b ! a)) =
             map (\<lambda>n'. node_core (st ! n'))
               (filter (\<lambda>n'. qualifies st n' \<and> key_of st chns n' = key_of st chns 3) [0..<length st])"
    by blast
  then show ?thesis using bs f unfolding fl by auto
qed

section \<open>Properties of the chunker\<close>

lemma find_chunk_roots_parsed:
  "\<exists>st crs. parse_snapshot snapshot_text = Inr st \<and> find_chunk_roots st root = Some crs"
proof -
  obtain st where "parse_snapshot snapshot_text = Inr st" "iter_nodes st root = Some [0..<length st]"
    using parsed_store_walks[of snapshot_text] by blast
  then show ?thesis by (simp add: find_chunk_roots_def)
qed

lemma estimate_tokens_slice:
  assumes "1 \<le> m"
  shows "estimate_tokens (slice_to s (m * 4)) \<le> m"
proof -
  have "length (slice_to s (m * 4)) \<le> nat (m * 4)" using assms by (simp add: slice_to_def)
  then have "int (length (slice_to s (m * 4))) \<le> m * 4" using assms by linarith
  then have "int (length (slice_to s (m * 4))) div 4 \<le> m" by linarith
  then show ?thesis using assms by (simp add: estimate_tokens_def)
qed

lemma child_chunk_bound:
  "1 \<le> m \<Longrightarrow> estimate_tokens (chunk_text (child_chunk st m idx cr j child)) \<le> m"
  by (simp add: child_chunk_def Let_def estimate_tokens_slice)

lemma root_chunks_bound:
  "1 \<le> m \<Longrightarrow> c \<in> set (root_chunks st m idx cr) \<Longrightarrow> estimate_tokens (chunk_text c) \<le> m"
  by (auto simp: root_chunks_def Let_def child_chunk_bound split: if_splits)

lemma map_enumerate_ignore:
  "(\<And>j x. g (f j x) = h x) \<Longrightarrow> map (\<lambda>(j, x). g (f j x)) (enumerate n xs) = map h xs"
  by (induction xs arbitrary: n) auto

lemma map_chunk_text_root_chunks:
  assumes "1 \<le> m"
  shows "map chunk_text (root_chunks st m idx cr) =
     (if estimate_tokens (serialize_subtree st cr 5000) \<le> m then [serialize_subtree st cr 5000]
      else map (fitted st m) (children (st ! cr)))"
proof -
  have "chunk_text (child_chunk st m idx cr j child) = fitted st m child" for j child
    using assms by (simp add: child_chunk_def fitted_def Let_def slice_to_def)
  then have "map (\<lambda>(j, child). chunk_text (child_chunk st m idx cr j child)) (enumerate 0 cs)
        = map (fitted st m) cs" for cs
    by (rule map_enumerate_ignore)
  then show ?thesis by (simp add: root_chunks_def Let_def comp_def case_prod_unfold)
qed

text \<open>
  Claim C10. For every input text and every budget of at least one token,
  \<^const>\<open>make_chunks\<close> returns a list of chunks, and the estimate of every chunk's text
  is within the budget, the hard-truncated chunks included.
\<close>

theorem make_chunks_within_budget:
  assumes "1 \<le> max_tokens_per_chunk"
  shows "\<exists>chunks. make_chunks snapshot_text max_tokens_per_chunk = Some (Inr chunks) \<and>
           (\<forall>c\<in>set chunks. estimate_tokens (chunk_text c) \<le> max_tokens_per_chunk)"
proof -
  obtain st crs where p: "parse_snapshot snapshot_text = Inr st" "find_chunk_roots st root = Some crs"
    using find_chunk_roots_parsed by blast
  then show ?thesis
    using root_chunks_bound[OF assms] by (auto simp: make_chunks_def)
qed

theorem make_chunks_within_budget_witness:
  "(1::int) \<le> 2 \<and>
   (\<exists>chunks. make_chunks ''- main\<newline>  - button \"Submit form\" [ref=e1]'' 2 = Some (Inr chunks) \<and>
      map chunk_id chunks = [''ch0_0_slice''] \<and> estimate_tokens (chunk_text (hd chunks)) \<le> 2)"
proof -
  let ?T = "''- main\<newline>  - button \"Submit form\" [ref=e1]''"
  have e: "case make_chunks ?T 2 of Some (Inr chunks) \<Rightarrow> map chunk_id chunks = [''ch0_0_slice'']
           | _ \<Rightarrow> False"
    by code_simp
  from make_chunks_within_budget[of 2 ?T] obtain chunks where
    c: "make_chunks ?T 2 = Some (Inr chunks)"
    and h: "\<forall>c\<in>set chunks. estimate_tokens (chunk_text c) \<le> 2" by auto
  from e c have i: "map chunk_id chunks = [''ch0_0_slice'']" by simp
  then have "hd chunks \<in> set chunks" by (cases chunks) auto
  with h c i show ?thesis by auto
qed

text \<open>
  The ladder of \<^const>\<open>make_chunks\<close>. For every input text and every positive budget,
  \<^const>\<open>make_chunks\<close> never fails and returns the concatenation of one group of chunks
  per chunk root, in the order of \<^const>\<open>find_chunk_roots\<close>: the whole serialized subtree
  when it fits the budget, otherwise exactly one chunk per direct child, the text of an
  over-budget child cut to \<^verbatim>\<open>max_tokens_per_chunk * 4\<close> characters.
\<close>

lemma make_chunks_ladder:
  assumes "1 \<le> max_tokens_per_chunk"
  shows "\<exists>st crs parts. parse_snapshot snapshot_text = Inr st \<and> find_chunk_roots st root = Some crs \<and>
           make_chunks snapshot_text max_tokens_per_chunk = Some (Inr (concat parts)) \<and>
           map (map chunk_text) parts =
             map (\<lambda>cr. if estimate_tokens (serialize_subtree st cr 5000) \<le> max_tokens_per_chunk
                       then [serialize_subtree st cr 5000]
                       else map (fitted st max_tokens_per_chunk) (children (st ! cr))) crs"
proof -
  obtain st crs where p: "parse_snapshot snapshot_text = Inr st" "find_chunk_roots st root = Some crs"
    using find_chunk_roots_parsed by blast
  let ?parts = "map (\<lambda>(idx, cr). root_chunks st max_tokens_per_chunk idx cr) (enumerate 0 crs)"
  define H where "H = (\<lambda>cr. if estimate_tokens (serialize_subtree st cr 5000) \<le> max_tokens_per_chunk
                       then [serialize_subtree st cr 5000]
                       else map (fitted st max_tokens_per_chunk) (children (st ! cr)))"
  have "map (\<lambda>(idx, cr). map chunk_text (root_chunks st max_tokens_per_chunk idx cr)) (enumerate 0 crs)
        = map H crs"
    by (rule map_enumerate_ignore) (simp add: H_def map_chunk_text_root_chunks[OF assms])
  then have "map (map chunk_text) ?parts = map H crs"
    by (simp add: comp_def case_prod_unfold)
  then show ?thesis using p by (intro exI[of _ st] exI[of _ crs] exI[of _ ?parts]) (simp add: make_chunks_def H_def)
qed

lemma make_chunks_ladder_example:
  "(1::int) \<le> 2 \<and>
   (\<exists>chunks. make_chunks ''- main\<newline>  - button \"Submit form\" [ref=e1]'' 2 = Some (Inr chunks) \<and>
      map chunk_text chunks = [''- button''])"
proof -
  let ?T = "''- main\<newline>  - button \"Submit form\" [ref=e1]''"
  have e: "case parse_snapshot ?T of Inl _ \<Rightarrow> False
           | Inr st \<Rightarrow> find_chunk_roots st root = Some [1] \<and>
               \<not> estimate_tokens (serialize_subtree st 1 5000) \<le> 2 \<and>
               children (st ! 1) = [2] \<and> fitted st 2 2 = ''- button''"
    by code_simp
  from make_chunks_ladder[of 2 ?T] obtain st crs parts where
    p: "parse_snapshot ?T = Inr st" "find_chunk_roots st root = Some crs"
       "make_chunks ?T 2 = Some (Inr (concat parts))"
       "map (map chunk_text) parts =
             map (\<lambda>cr. if estimate_tokens (serialize_subtree st cr 5000) \<le> 2
                       then [serialize_subtree st cr 5000]
                       else map (fitted st 2) (children (st ! cr))) crs"
    by auto
  from e p(1,2) have "crs = [1]" "\<not> estimate_tokens (serialize_subtree st 1 5000) \<le> 2"
    "children (st ! 1) = [2]" "fitted st 2 2 = ''- button''" by simp_all
  with p(4) have "map (map chunk_text) parts = [[''- button'']]" by simp
  then have "concat (map (map chunk_text) parts) = [''- button'']" by simp
  then have "map chunk_text (concat parts) = [''- button'']" by (simp add: map_concat)
  with p(3) show ?thesis by simp
qed

text \<open>
  Claim C4 says that every chunk root contributes at least one chunk, an over-budget
  unit being truncated rather than dropped. The ladder above does so for every chunk root
  that fits the budget or has a child, and truncates an over-budget child; but a chunk
  root that is over the budget and has no child is split into its children, of which
  there are none, and is dropped. The single line below is a chunk root (address 1) that
  serializes to 17 characters, 4 tokens, over a budget of 1: no chunk is returned.
\<close>

theorem make_chunks_drops_childless_root:
  "snapshot_chunk_roots ''- main \"abcdefgh\"'' = Some (Inr [1]) \<and>
   estimate_tokens ''- main \"abcdefgh\"'' = 4 \<and>
   make_chunks ''- main \"abcdefgh\"'' 1 = Some (Inr [])"
  by code_simp

section \<open>Salient text\<close>

text \<open>
  Claim C5 gives the name of a heading or link anywhere in the subtree precedence over
  every \<^verbatim>\<open>texts\<close> attribute, as the docstring of \<^verbatim>\<open>first_salient_text\<close> does. The loop
  tests both on each node in turn, in preorder, so the \<^verbatim>\<open>texts\<close> of an earlier node win
  over the name of a later link. In the three lines below the list item (address 1) holds
  the text "hello" and has the link "Docs" (address 2) as its child; the salient text of
  the list item is "hello".
\<close>

theorem first_salient_text_prefers_earlier_texts:
  "snapshot_salient_text ''- listitem\<newline>  - text: hello\<newline>  - link \"Docs\" [ref=e1]'' 1
     = Some (Inr ''hello'') \<and>
   map_sum id (map (\<lambda>n. (role n, name n, attrs_texts n, children n)))
     (parse_snapshot ''- listitem\<newline>  - text: hello\<newline>  - link \"Docs\" [ref=e1]'')
     = Inr [(''root'', None, None, [1]), (''listitem'', None, Some [''hello''], [2]),
            (''link'', Some ''Docs'', None, [])]"
  by code_simp

section \<open>Properties of the trimmer\<close>

lemma slice_to_nonneg: "0 \<le> k \<Longrightarrow> slice_to xs k = take (nat k) xs"
  by (simp add: slice_to_def)

lemma slice_to_take: "\<exists>n. slice_to xs k = take n xs"
  by (auto simp: slice_to_def)

lemma slice_to_all: "int (length xs) \<le> k \<Longrightarrow> slice_to xs k = xs"
  by (simp add: slice_to_def)

lemma sorted_reverse_stable: "sorted_desc_stable key xs (sorted_reverse key xs)"
proof -
  have "sorted (map (\<lambda>x. - key x) (sort_key (\<lambda>x. - key x) xs))" by (rule sorted_sort_key)
  then have 1: "sorted_wrt (\<lambda>a b. key b \<le> key a) (sort_key (\<lambda>x. - key x) xs)"
    by (simp add: sorted_map)
  have 2: "filter (\<lambda>x. key x = v) (sort_key (\<lambda>x. - key x) xs) = filter (\<lambda>x. key x = v) xs" for v
    using sort_key_stable[of "\<lambda>x. - key x" "- v" xs] by simp
  show ?thesis unfolding sorted_desc_stable_def sorted_reverse_def using 1 2 by simp
qed

lemma sorted_reverse_id:
  "sorted_wrt (\<lambda>a b. key b \<le> key a) xs \<Longrightarrow> sorted_reverse key xs = xs"
  unfolding sorted_reverse_def
  by (rule sort_key_id_if_sorted) (simp add: sorted_map)

lemma sorted_reverse_sorted: "sorted_wrt (\<lambda>a b. key b \<le> key a) (sorted_reverse key xs)"
  using sorted_reverse_stable[of key xs] by (simp add: sorted_desc_stable_def)

lemma kept_sorted:
  assumes "\<And>x. key (f x) = key x"
  shows "sorted_wrt (\<lambda>a b. key b \<le> key a) (map f (slice_to (sorted_reverse key xs) k))"
proof -
  obtain n where n: "slice_to (sorted_reverse key xs) k = take n (sorted_reverse key xs)"
    using slice_to_take by blast
  have "sorted_wrt (\<lambda>a b. key b \<le> key a) (take n (sorted_reverse key xs))"
    using sorted_reverse_sorted by (rule sorted_wrt_take)
  then show ?thesis using assms n by (simp add: sorted_wrt_map)
qed

lemma kept_of_slice:
  "0 \<le> k \<Longrightarrow> kept_of key k xs (slice_to (sorted_reverse key xs) k)"
  unfolding kept_of_def using sorted_reverse_stable[of key xs] slice_to_nonneg by blast

lemma length_sorted_reverse [simp]: "length (sorted_reverse key xs) = length xs"
  by (simp add: sorted_reverse_def)

lemma length_kept: "0 \<le> k \<Longrightarrow> length (slice_to (sorted_reverse key xs) k) = min (nat k) (length xs)"
  by (simp add: slice_to_nonneg min.commute)

lemma item_score_trim_item [simp]: "item_score kw (trim_item kw' ma it) = item_score kw it"
  by (simp add: item_score_def trim_item_def)

lemma section_score_trim_section [simp]:
  "section_score kw (trim_section kw' mi ma sec) = section_score kw sec"
  by (simp add: section_score_def trim_section_def)

text \<open>
  Claim C6. For non-negative limits, the output of \<^const>\<open>trim_for_llm\<close> has
  \<open>min max_sections n\<close> sections when the model has \<open>n\<close> (so at most \<open>max_sections\<close>, and
  no entry is dropped for a low score while slots remain); they are the first entries of
  the model's sections arranged by descending score, entries of equal score in their
  original order, each with its list of items replaced; the same holds of the items of
  every kept section with \<open>max_items\<close>, and of the actions of every kept item with
  \<open>max_actions\<close>.
\<close>

theorem trim_for_llm_limits_and_order:
  assumes "0 \<le> max_sections" "0 \<le> max_items" "0 \<le> max_actions"
  shows "\<exists>ksecs.
     kept_of (section_score (task_keywords tsk)) max_sections (sections m) ksecs \<and>
     length (sections (trim_for_llm m tsk max_sections max_items max_actions)) =
       min (nat max_sections) (length (sections m)) \<and>
     list_all2
       (\<lambda>ts s. ts = s\<lparr>items := items ts\<rparr> \<and>
          length (items ts) = min (nat max_items) (length (items s)) \<and>
          (\<exists>kits. kept_of (item_score (task_keywords tsk)) max_items (items s) kits \<and>
             list_all2
               (\<lambda>oi i. oi = i\<lparr>actions := actions oi\<rparr> \<and>
                  length (actions oi) = min (nat max_actions) (length (actions i)) \<and>
                  kept_of (action_score (task_keywords tsk)) max_actions (actions i) (actions oi))
               (items ts) kits))
       (sections (trim_for_llm m tsk max_sections max_items max_actions)) ksecs"
proof -
  define kw where "kw = task_keywords tsk"
  let ?ksecs = "slice_to (sorted_reverse (section_score kw) (sections m)) max_sections"
  have item: "trim_item kw max_actions i = i\<lparr>actions := actions (trim_item kw max_actions i)\<rparr> \<and>
        length (actions (trim_item kw max_actions i)) = min (nat max_actions) (length (actions i)) \<and>
        kept_of (action_score kw) max_actions (actions i) (actions (trim_item kw max_actions i))"
    for i
    using assms(3) by (simp add: trim_item_def kept_of_slice length_kept)
  have sec: "trim_section kw max_items max_actions s
               = s\<lparr>items := items (trim_section kw max_items max_actions s)\<rparr> \<and>
        length (items (trim_section kw max_items max_actions s))
               = min (nat max_items) (length (items s)) \<and>
        (\<exists>kits. kept_of (item_score kw) max_items (items s) kits \<and>
             list_all2
               (\<lambda>oi i. oi = i\<lparr>actions := actions oi\<rparr> \<and>
                  length (actions oi) = min (nat max_actions) (length (actions i)) \<and>
                  kept_of (action_score kw) max_actions (actions i) (actions oi))
               (items (trim_section kw max_items max_actions s)) kits)" for s
  proof -
    let ?kits = "slice_to (sorted_reverse (item_score kw) (items s)) max_items"
    have "list_all2
               (\<lambda>oi i. oi = i\<lparr>actions := actions oi\<rparr> \<and>
                  length (actions oi) = min (nat max_actions) (length (actions i)) \<and>
                  kept_of (action_score kw) max_actions (actions i) (actions oi))
               (map (trim_item kw max_actions) ?kits) ?kits"
      using item by (simp add: list_all2_map1 list_all2_same)
    then show ?thesis
      using assms(2) kept_of_slice[OF assms(2), of "item_score kw" "items s"]
      by (auto simp: trim_section_def length_kept)
  qed
  have "list_all2
       (\<lambda>ts s. ts = s\<lparr>items := items ts\<rparr> \<and>
          length (items ts) = min (nat max_items) (length (items s)) \<and>
          (\<exists>kits. kept_of (item_score kw) max_items (items s) kits \<and>
             list_all2
               (\<lambda>oi i. oi = i\<lparr>actions := actions oi\<rparr> \<and>
                  length (actions oi) = min (nat max_actions) (length (actions i)) \<and>
                  kept_of (action_score kw) max_actions (actions i) (actions oi))
               (items ts) kits))
       (map (trim_section kw max_items max_actions) ?ksecs) ?ksecs"
    unfolding list_all2_map1 list_all2_same using sec by blast
  then show ?thesis
    using kept_of_slice[OF assms(1), of "section_score kw" "sections m"] assms(1)
    unfolding kw_def[symmetric]
    by (intro exI[of _ ?ksecs]) (simp add: trim_for_llm_def Let_def kw_def[symmetric] length_kept)
qed

theorem trim_for_llm_limits_and_order_witness:
  "(0::int) \<le> 1 \<and> (0::int) \<le> 8 \<and>
   length (sections (trim_for_llm
     \<lparr>page = Some [], task = None, sections =
      [\<lparr>section_id = ''s_main_Help'', landmark = ''main'', heading_path = [''Help''],
        items = [\<lparr>item_id = ''s_main_Help/i0'', item_key = ''Help'', container_role = ''main'',
                  actions = [\<lparr>action_id = ''s_main_Help/i0/a0'', a_role = ''link'',
                               a_name = ''Docs'', a_ref = ''e1'', a_disabled = False,
                               a_url = Some ''http://panel''\<rparr>,
                             \<lparr>action_id = ''s_main_Help/i0/a1'', a_role = ''button'',
                               a_name = ''Panel go'', a_ref = ''e2'', a_disabled = False,
                               a_url = None\<rparr>]\<rparr>]\<rparr>,
       \<lparr>section_id = ''s_main_Panel Settings'', landmark = ''main'',
        heading_path = [''Panel Settings''], items = []\<rparr>]\<rparr>
     ''panel'' 1 8 1)) = 1"
proof -
  let ?M = "\<lparr>page = Some [], task = None, sections =
      [\<lparr>section_id = ''s_main_Help'', landmark = ''main'', heading_path = [''Help''],
        items = [\<lparr>item_id = ''s_main_Help/i0'', item_key = ''Help'', container_role = ''main'',
                  actions = [\<lparr>action_id = ''s_main_Help/i0/a0'', a_role = ''link'',
                               a_name = ''Docs'', a_ref = ''e1'', a_disabled = False,
                               a_url = Some ''http://panel''\<rparr>,
                             \<lparr>action_id = ''s_main_Help/i0/a1'', a_role = ''button'',
                               a_name = ''Panel go'', a_ref = ''e2'', a_disabled = False,
                               a_url = None\<rparr>]\<rparr>]\<rparr>,
       \<lparr>section_id = ''s_main_Panel Settings'', landmark = ''main'',
        heading_path = [''Panel Settings''], items = []\<rparr>]\<rparr>"
  have z: "(0::int) \<le> 1" "(0::int) \<le> 8" by simp_all
  from trim_for_llm_limits_and_order[OF z(1) z(2) z(1), of "''panel''" ?M]
  have "length (sections (trim_for_llm ?M ''panel'' 1 8 1)) = min (nat 1) (length (sections ?M))"
    by blast
  then show ?thesis by simp
qed

lemma trim_item_idem:
  assumes "int (length (actions (trim_item kw ma it))) \<le> ma'"
  shows "trim_item kw ma' (trim_item kw ma it) = trim_item kw ma it"
proof -
  let ?A = "slice_to (sorted_reverse (action_score kw) (actions it)) ma"
  have "sorted_wrt (\<lambda>a b. action_score kw b \<le> action_score kw a) (map id ?A)"
    by (rule kept_sorted) simp
  then have "sorted_reverse (action_score kw) ?A = ?A" using sorted_reverse_id by simp
  moreover have "int (length ?A) \<le> ma'" using assms by (simp add: trim_item_def)
  ultimately show ?thesis by (simp add: trim_item_def slice_to_all)
qed

lemma trim_section_idem:
  assumes "int (length (items (trim_section kw mi ma sec))) \<le> mi'"
    "\<forall>it\<in>set (items (trim_section kw mi ma sec)). int (length (actions it)) \<le> ma'"
  shows "trim_section kw mi' ma' (trim_section kw mi ma sec) = trim_section kw mi ma sec"
proof -
  let ?I = "map (trim_item kw ma) (slice_to (sorted_reverse (item_score kw) (items sec)) mi)"
  have i: "items (trim_section kw mi ma sec) = ?I" by (simp add: trim_section_def)
  have "sorted_wrt (\<lambda>a b. item_score kw b \<le> item_score kw a) ?I"
    by (rule kept_sorted) simp
  then have 1: "sorted_reverse (item_score kw) ?I = ?I" using sorted_reverse_id by blast
  have 2: "slice_to ?I mi' = ?I" using assms(1) i by (simp add: slice_to_all)
  have 3: "map (trim_item kw ma') ?I = ?I"
  proof (rule map_idI)
    fix x assume x: "x \<in> set ?I"
    then obtain it where it: "x = trim_item kw ma it" by auto
    have "int (length (actions x)) \<le> ma'" using assms(2) x unfolding i by blast
    then show "trim_item kw ma' x = x" using trim_item_idem[of kw ma it ma'] it by simp
  qed
  have "trim_section kw mi' ma' (trim_section kw mi ma sec)
        = (trim_section kw mi ma sec)\<lparr>items := map (trim_item kw ma') (slice_to (sorted_reverse (item_score kw) ?I) mi')\<rparr>"
    unfolding trim_section_def[of kw mi' ma'] i ..
  also have "\<dots> = (trim_section kw mi ma sec)\<lparr>items := ?I\<rparr>" using 1 2 3 by simp
  also have "\<dots> = trim_section kw mi ma sec" by (simp add: trim_section_def)
  finally show ?thesis .
qed

lemma trim_for_llm_resorted:
  assumes "int (length (sections (trim_for_llm m tsk max_sections max_items max_actions))) \<le> max_sections'"
    "\<forall>sec\<in>set (sections (trim_for_llm m tsk max_sections max_items max_actions)).
        int (length (items sec)) \<le> max_items'"
    "\<forall>sec\<in>set (sections (trim_for_llm m tsk max_sections max_items max_actions)).
        \<forall>it\<in>set (items sec). int (length (actions it)) \<le> max_actions'"
  shows "sections (trim_for_llm (trim_for_llm m tsk max_sections max_items max_actions) tsk
                     max_sections' max_items' max_actions')
         = sections (trim_for_llm m tsk max_sections max_items max_actions)"
proof -
  define kw where "kw = task_keywords tsk"
  let ?O = "map (trim_section kw max_items max_actions)
              (slice_to (sorted_reverse (section_score kw) (sections m)) max_sections)"
  have o: "sections (trim_for_llm m tsk max_sections max_items max_actions) = ?O"
    by (simp add: trim_for_llm_def Let_def kw_def)
  have "sorted_wrt (\<lambda>a b. section_score kw b \<le> section_score kw a) ?O"
    by (rule kept_sorted) simp
  then have 1: "sorted_reverse (section_score kw) ?O = ?O" using sorted_reverse_id by blast
  have 2: "slice_to ?O max_sections' = ?O" using assms(1) o by (simp add: slice_to_all)
  have 3: "map (trim_section kw max_items' max_actions') ?O = ?O"
  proof (rule map_idI)
    fix x assume x: "x \<in> set ?O"
    then obtain s where s: "x = trim_section kw max_items max_actions s" by auto
    have "int (length (items x)) \<le> max_items'"
      "\<forall>it\<in>set (items x). int (length (actions it)) \<le> max_actions'"
      using assms(2,3) x unfolding o by blast+
    then show "trim_section kw max_items' max_actions' x = x"
      using trim_section_idem[of kw max_items max_actions s max_items' max_actions'] s by simp
  qed
  have "sections (trim_for_llm (trim_for_llm m tsk max_sections max_items max_actions) tsk
                     max_sections' max_items' max_actions')
        = map (trim_section kw max_items' max_actions')
            (slice_to (sorted_reverse (section_score kw) ?O) max_sections')"
    unfolding trim_for_llm_def[of _ tsk max_sections' max_items' max_actions'] Let_def kw_def[symmetric] o
    by simp
  also have "\<dots> = ?O" using 1 2 3 by simp
  finally show ?thesis using o by simp
qed

lemma trim_for_llm_sizes:
  assumes "0 \<le> max_sections" "0 \<le> max_items" "0 \<le> max_actions"
  shows "int (length (sections (trim_for_llm m tsk max_sections max_items max_actions))) \<le> max_sections"
    and "\<forall>sec\<in>set (sections (trim_for_llm m tsk max_sections max_items max_actions)).
           int (length (items sec)) \<le> max_items"
    and "\<forall>sec\<in>set (sections (trim_for_llm m tsk max_sections max_items max_actions)).
           \<forall>it\<in>set (items sec). int (length (actions it)) \<le> max_actions"
proof -
  have a: "int (length (actions (trim_item kw max_actions it))) \<le> max_actions" for kw it
    using assms(3) by (simp add: trim_item_def length_kept)
  have i: "int (length (items (trim_section kw max_items max_actions sec))) \<le> max_items" for kw sec
    using assms(2) by (simp add: trim_section_def length_kept)
  have ia: "\<forall>it\<in>set (items (trim_section kw max_items max_actions sec)).
              int (length (actions it)) \<le> max_actions" for kw sec
    using a by (auto simp: trim_section_def)
  show "int (length (sections (trim_for_llm m tsk max_sections max_items max_actions))) \<le> max_sections"
    using assms(1) by (simp add: trim_for_llm_def Let_def length_kept)
  show "\<forall>sec\<in>set (sections (trim_for_llm m tsk max_sections max_items max_actions)).
           int (length (items sec)) \<le> max_items"
    using i by (auto simp: trim_for_llm_def Let_def)
  show "\<forall>sec\<in>set (sections (trim_for_llm m tsk max_sections max_items max_actions)).
           \<forall>it\<in>set (items sec). int (length (actions it)) \<le> max_actions"
    using ia by (auto simp: trim_for_llm_def Let_def)
qed

text \<open>With non-negative limits, the same limits, or larger ones, are at least the sizes
  of the output, so trimming again changes nothing.\<close>

lemma trim_for_llm_same_or_larger_limits:
  assumes "0 \<le> max_sections" "0 \<le> max_items" "0 \<le> max_actions"
    "max_sections \<le> max_sections'" "max_items \<le> max_items'" "max_actions \<le> max_actions'"
  shows "sections (trim_for_llm (trim_for_llm m tsk max_sections max_items max_actions) tsk
                     max_sections' max_items' max_actions')
         = sections (trim_for_llm m tsk max_sections max_items max_actions)"
proof (rule trim_for_llm_resorted)
  note s = trim_for_llm_sizes[OF assms(1,2,3), of m tsk]
  show "int (length (sections (trim_for_llm m tsk max_sections max_items max_actions))) \<le> max_sections'"
    using s(1) assms(4) by linarith
  show "\<forall>sec\<in>set (sections (trim_for_llm m tsk max_sections max_items max_actions)).
        int (length (items sec)) \<le> max_items'"
    using s(2) assms(5) by fastforce
  show "\<forall>sec\<in>set (sections (trim_for_llm m tsk max_sections max_items max_actions)).
        \<forall>it\<in>set (items sec). int (length (actions it)) \<le> max_actions'"
    using s(3) assms(6) by fastforce
qed

text \<open>
  Claim C7. Applying \<^const>\<open>trim_for_llm\<close> to its own output, with the same task and with
  limits at least as large as the sizes of that output, returns the same sections.
\<close>

theorem trim_for_llm_idempotent:
  assumes "int (length (sections (trim_for_llm m tsk max_sections max_items max_actions))) \<le> max_sections'"
    "\<forall>sec\<in>set (sections (trim_for_llm m tsk max_sections max_items max_actions)).
        int (length (items sec)) \<le> max_items'"
    "\<forall>sec\<in>set (sections (trim_for_llm m tsk max_sections max_items max_actions)).
        \<forall>it\<in>set (items sec). int (length (actions it)) \<le> max_actions'"
  shows "sections (trim_for_llm (trim_for_llm m tsk max_sections max_items max_actions) tsk
                     max_sections' max_items' max_actions')
         = sections (trim_for_llm m tsk max_sections max_items max_actions)"
  using assms by (rule trim_for_llm_resorted)

theorem trim_for_llm_idempotent_witness:
  "sections (trim_for_llm (trim_for_llm
     \<lparr>page = Some [], task = None, sections =
      [\<lparr>section_id = ''s_main_Help'', landmark = ''main'', heading_path = [''Help''],
        items = [\<lparr>item_id = ''s_main_Help/i0'', item_key = ''Help'', container_role = ''main'',
                  actions = [\<lparr>action_id = ''s_main_Help/i0/a0'', a_role = ''link'',
                               a_name = ''Docs'', a_ref = ''e1'', a_disabled = False,
                               a_url = Some ''http://panel''\<rparr>,
                             \<lparr>action_id = ''s_main_Help/i0/a1'', a_role = ''button'',
                               a_name = ''Panel go'', a_ref = ''e2'', a_disabled = False,
                               a_url = None\<rparr>]\<rparr>]\<rparr>,
       \<lparr>section_id = ''s_main_Panel Settings'', landmark = ''main'',
        heading_path = [''Panel Settings''], items = []\<rparr>]\<rparr>
     ''panel'' 2 8 1) ''panel'' 2 8 1)
   = sections (trim_for_llm
     \<lparr>page = Some [], task = None, sections =
      [\<lparr>section_id = ''s_main_Help'', landmark = ''main'', heading_path = [''Help''],
        items = [\<lparr>item_id = ''s_main_Help/i0'', item_key = ''Help'', container_role = ''main'',
                  actions = [\<lparr>action_id = ''s_main_Help/i0/a0'', a_role = ''link'',
                               a_name = ''Docs'', a_ref = ''e1'', a_disabled = False,
                               a_url = Some ''http://panel''\<rparr>,
                             \<lparr>action_id = ''s_main_Help/i0/a1'', a_role = ''button'',
                               a_name = ''Panel go'', a_ref = ''e2'', a_disabled = False,
                               a_url = None\<rparr>]\<rparr>]\<rparr>,
       \<lparr>section_id = ''s_main_Panel Settings'', landmark = ''main'',
        heading_path = [''Panel Settings''], items = []\<rparr>]\<rparr>
     ''panel'' 2 8 1)"
proof -
  let ?M = "\<lparr>page = Some [], task = None, sections =
      [\<lparr>section_id = ''s_main_Help'', landmark = ''main'', heading_path = [''Help''],
        items = [\<lparr>item_id = ''s_main_Help/i0'', item_key = ''Help'', container_role = ''main'',
                  actions = [\<lparr>action_id = ''s_main_Help/i0/a0'', a_role = ''link'',
                               a_name = ''Docs'', a_ref = ''e1'', a_disabled = False,
                               a_url = Some ''http://panel''\<rparr>,
                             \<lparr>action_id = ''s_main_Help/i0/a1'', a_role = ''button'',
                               a_name = ''Panel go'', a_ref = ''e2'', a_disabled = False,
                               a_url = None\<rparr>]\<rparr>]\<rparr>,
       \<lparr>section_id = ''s_main_Panel Settings'', landmark = ''main'',
        heading_path = [''Panel Settings''], items = []\<rparr>]\<rparr>"
  have e: "sections (trim_for_llm ?M ''panel'' 2 8 1) =
    [\<lparr>section_id = ''s_main_Panel Settings'', landmark = ''main'',
        heading_path = [''Panel Settings''], items = []\<rparr>,
     \<lparr>section_id = ''s_main_Help'', landmark = ''main'', heading_path = [''Help''],
        items = [\<lparr>item_id = ''s_main_Help/i0'', item_key = ''Help'', container_role = ''main'',
                  actions = [\<lparr>action_id = ''s_main_Help/i0/a0'', a_role = ''link'',
                               a_name = ''Docs'', a_ref = ''e1'', a_disabled = False,
                               a_url = Some ''http://panel''\<rparr>]\<rparr>]\<rparr>]"
    by code_simp
  show ?thesis by (rule trim_for_llm_idempotent) (simp_all add: e)
qed

end
